theory Spec2Isabelle
  imports Complex_Main "HOL-Library.Word" "HOL-Library.Multiset"
begin

section \<open>gocachelogstat: the log parser and the percentile reporter\<close>

text \<open>
  The program reads the build cache's \<open>log.txt\<close>, scans it line by line and prints
  reuse statistics. Two versions of \<open>main.go\<close> are modelled: the one that records
  reuse latency only (constants without suffix) and the one that also records the time
  since the last reuse (constants with the suffix \<open>_delta\<close>).

  Go's \<open>int64\<close> is \<open>64 word\<close>, so \<open>+\<close> and \<open>-\<close> wrap around. Go's \<open>int\<close> is taken to
  be 64 bits wide; a value of that type is kept as the mathematical integer it denotes
  (\<open>sint\<close> of the word), which is what \<open>sort.Ints\<close> compares. Slice lengths and indices
  are natural numbers: \<open>len(reuse) * 999\<close> cannot exceed \<open>2^63\<close> for a slice of 8-byte
  elements that fits in an address space.
\<close>

type_synonym int64 = "64 word"

subsection \<open>The library functions the scan calls\<close>

text \<open>\<open>bytes.Split(data, "\n")\<close>: the pieces between newlines, \<open>n + 1\<close> of them for \<open>n\<close> newlines.\<close>

fun Split :: "string \<Rightarrow> string list" where
  "Split [] = [[]]"
| "Split (c # cs) =
    (if c = CHR 0x0A then [] # Split cs
     else (case Split cs of l # ls \<Rightarrow> (c # l) # ls | [] \<Rightarrow> [[c]]))"

text \<open>
  \<open>strings.Fields\<close> splits around runs of white space as \<open>unicode.IsSpace\<close> defines it.
  \<open>space_len s\<close> is the number of bytes of the white-space rune that starts \<open>s\<close>, and 0
  when none does: the six ASCII characters, and the UTF-8 encodings of U+0085, U+00A0,
  U+1680, U+2000 to U+200A, U+2028, U+2029, U+202F, U+205F and U+3000. No byte of
  these encodings continues another rune, so scanning byte by byte finds the same runs
  as decoding rune by rune.
\<close>

definition asciiSpace :: "char \<Rightarrow> bool" where
  "asciiSpace c \<longleftrightarrow> c \<in> {CHR 0x09, CHR 0x0A, CHR 0x0B, CHR 0x0C, CHR 0x0D, CHR 0x20}"

fun space_len :: "string \<Rightarrow> nat" where
  "space_len [] = 0"
| "space_len (c # cs) =
    (if asciiSpace c then 1
     else if c = CHR 0xC2 then
       (case cs of d # _ \<Rightarrow> if d = CHR 0x85 \<or> d = CHR 0xA0 then 2 else 0 | [] \<Rightarrow> 0)
     else if c = CHR 0xE1 then
       (if take 2 cs = [CHR 0x9A, CHR 0x80] then 3 else 0)
     else if c = CHR 0xE2 then
       (case cs of
          d # e # _ \<Rightarrow>
            if d = CHR 0x80 \<and>
                 ((0x80 \<le> (of_char e :: nat) \<and> (of_char e :: nat) \<le> 0x8A)
                  \<or> e = CHR 0xA8 \<or> e = CHR 0xA9 \<or> e = CHR 0xAF)
               \<or> d = CHR 0x81 \<and> e = CHR 0x9F
            then 3 else 0
        | _ \<Rightarrow> 0)
     else if c = CHR 0xE3 then
       (if take 2 cs = [CHR 0x80, CHR 0x80] then 3 else 0)
     else 0)"

text \<open>\<open>cur\<close> is the field being read, reversed; it is emitted when a white-space rune or the end follows.\<close>

definition emit :: "string \<Rightarrow> string list" where
  "emit cur = (if cur = [] then [] else [rev cur])"

function fields_from :: "string \<Rightarrow> string \<Rightarrow> string list" where
  "fields_from cur [] = emit cur"
| "fields_from cur (c # cs) =
    (if space_len (c # cs) = 0 then fields_from (c # cur) cs
     else emit cur @ fields_from [] (drop (space_len (c # cs) - 1) cs))"
  by pat_completeness auto
termination
  by (relation "measure (\<lambda>(cur, s). length s)") auto

definition Fields :: "string \<Rightarrow> string list" where
  "Fields s = fields_from [] s"

text \<open>
  \<open>strconv.ParseInt(s, 10, 64)\<close>: an optional sign, then one or more decimal digits and
  nothing else; the value must lie in \<open>[-2^63, 2^63 - 1]\<close>. \<open>None\<close> is the error return.
\<close>

definition is_digit :: "char \<Rightarrow> bool" where
  "is_digit c \<longleftrightarrow> (48 :: nat) \<le> of_char c \<and> (of_char c :: nat) \<le> 57"

definition digits_val :: "string \<Rightarrow> nat" where
  "digits_val ds = foldl (\<lambda>n c. 10 * n + (of_char c - 48)) 0 ds"

definition ParseUint :: "string \<Rightarrow> nat option" where
  "ParseUint s = (if s = [] \<or> \<not> list_all is_digit s then None else Some (digits_val s))"

definition ParseInt :: "string \<Rightarrow> int64 option" where
  "ParseInt s =
    (if s = [] then None
     else
       let neg = (hd s = CHR ''-'');
           s1 = (if hd s = CHR ''+'' \<or> hd s = CHR ''-'' then tl s else s)
       in case ParseUint s1 of
            None \<Rightarrow> None
          | Some un \<Rightarrow>
              if \<not> neg \<and> un \<ge> 2 ^ 63 then None
              else if neg \<and> un > 2 ^ 63 then None
              else Some (if neg then - word_of_nat un else word_of_nat un))"

subsection \<open>Entries, the heap and the state of the scan\<close>

text \<open>
  An \<open>*entry\<close> is an address into the heap, the list of all entries allocated so far;
  \<open>None\<close> is \<open>nil\<close>, which is also what the map returns for a key it does not hold. \<open>new(entry)\<close> appends a zeroed entry, so its address is the length
  of the heap before. The field \<open>size\<close> is called \<open>esize\<close> here.
\<close>

type_synonym ptr = "nat option"

record entry =
  created :: int64
  esize :: int64
  reused :: bool
  data :: ptr

datatype error =
    InvalidLine string  \<comment> \<open>\<open>log.Fatalf("invalid log.txt line: %v", line)\<close>\<close>
  | InvalidTime string  \<comment> \<open>\<open>log.Fatalf("invalid log.txt time: %v", line)\<close>\<close>
  | InvalidSize string  \<comment> \<open>\<open>log.Fatalf("invalid log.txt size: %v", line)\<close>\<close>
  | MemFault            \<comment> \<open>panic: invalid memory address or nil pointer dereference\<close>
  | IndexOutOfRange     \<comment> \<open>panic: index out of range\<close>

record 'e state =
  totalA :: int64
  totalReusedA :: int64
  totalD :: int64
  totalReusedD :: int64
  reuseA :: "int list"
  reuseD :: "int list"
  firstTime :: int64
  lastTime :: int64
  cache :: "string \<rightharpoonup> nat"
  heap :: "'e list"

definition init :: "entry state" where
  "init = \<lparr>totalA = 0, totalReusedA = 0, totalD = 0, totalReusedD = 0,
           reuseA = [], reuseD = [], firstTime = 0, lastTime = 0,
           cache = Map.empty, heap = []\<rparr>"

text \<open>Lines 72 to 75, the same in both versions: \<open>firstTime\<close> is set while it is still 0.\<close>

definition stamp :: "('e, 'm) state_scheme \<Rightarrow> int64 \<Rightarrow> ('e, 'm) state_scheme" where
  "stamp s t = s\<lparr>firstTime := (if firstTime s = 0 then t else firstTime s), lastTime := t\<rparr>"

subsection \<open>The scan of \<open>main.go\<close>\<close>

text \<open>The \<open>case "put"\<close> branch, lines 78 to 98; \<open>t\<close> is the parsed time.\<close>

definition put_data :: "entry state \<Rightarrow> int64 \<Rightarrow> string \<Rightarrow> int64 \<Rightarrow> nat \<times> entry state" where
  "put_data s t k sz =
    (case cache s (k @ ''-d'') of
       Some e1 \<Rightarrow> (e1, s)
     | None \<Rightarrow>
         (length (heap s),
          s\<lparr>heap := heap s @ [\<lparr>created = t, esize = sz, reused = False, data = None\<rparr>],
            cache := (cache s)(k @ ''-d'' \<mapsto> length (heap s)),
            totalD := totalD s + sz\<rparr>))"

definition put_action :: "entry state \<Rightarrow> int64 \<Rightarrow> string \<Rightarrow> nat \<Rightarrow> entry state" where
  "put_action s t k e1 =
    (case cache s (k @ ''-a'') of
       Some e \<Rightarrow> s
     | None \<Rightarrow>
         s\<lparr>heap := heap s @ [\<lparr>created = t, esize = 154, reused = False, data = Some e1\<rparr>],
           cache := (cache s)(k @ ''-a'' \<mapsto> length (heap s)),
           totalA := totalA s + 154\<rparr>)"

definition put_branch :: "entry state \<Rightarrow> int64 \<Rightarrow> string list \<Rightarrow> string \<Rightarrow> error + entry state" where
  "put_branch s t f line =
    (case ParseInt (f ! 4) of
       None \<Rightarrow> Inl (InvalidSize line)
     | Some sz \<Rightarrow>
         (case put_data s t (f ! 3) sz of (e1, s1) \<Rightarrow> Inr (put_action s1 t (f ! 2) e1)))"

text \<open>The \<open>case "get", "miss"\<close> branch, lines 101 to 114: first the two reuse marks.\<close>

definition mark_action :: "entry state \<Rightarrow> nat \<Rightarrow> entry state" where
  "mark_action s a =
    (if \<not> reused (heap s ! a)
     then s\<lparr>heap := (heap s)[a := (heap s ! a)\<lparr>reused := True\<rparr>],
            totalReusedA := totalReusedA s + esize (heap s ! a)\<rparr>
     else s)"

definition mark_data :: "entry state \<Rightarrow> nat \<Rightarrow> entry state" where
  "mark_data s d =
    (if \<not> reused (heap s ! d)
     then s\<lparr>heap := (heap s)[d := (heap s ! d)\<lparr>reused := True\<rparr>],
            totalReusedD := totalReusedD s + esize (heap s ! d)\<rparr>
     else s)"

text \<open>Lines 113 and 114.\<close>

definition add_samples :: "entry state \<Rightarrow> int64 \<Rightarrow> nat \<Rightarrow> nat \<Rightarrow> entry state" where
  "add_samples s t a d =
    s\<lparr>reuseA := reuseA s @ [sint (t - created (heap s ! a))],
      reuseD := reuseD s @ [sint (t - created (heap s ! d))]\<rparr>"

text \<open>The branch as a whole. Reading through a pointer that is \<open>nil\<close>, or that is no address of the
  heap, is the panic \<open>MemFault\<close>.\<close>

definition get_branch :: "entry state \<Rightarrow> int64 \<Rightarrow> string list \<Rightarrow> error + entry state" where
  "get_branch s t f =
    (case cache s (f ! 2 @ ''-a'') of
       None \<Rightarrow> Inr s
     | Some a \<Rightarrow>
         if length (heap s) \<le> a then Inl MemFault
         else
           (case data (heap (mark_action s a) ! a) of
              None \<Rightarrow> Inl MemFault
            | Some d \<Rightarrow>
                if length (heap (mark_action s a)) \<le> d then Inl MemFault
                else Inr (add_samples (mark_data (mark_action s a) d) t a d)))"

text \<open>The loop body, lines 61 to 115, on one line of the file.\<close>

definition step :: "entry state \<Rightarrow> string \<Rightarrow> error + entry state" where
  "step s line =
    (let f = Fields line in
     if length f = 0 then Inr s
     else if length f < 3 \<or> f ! 1 = ''put'' \<and> length f \<noteq> 5 then Inl (InvalidLine line)
     else
       (case ParseInt (f ! 0) of
          None \<Rightarrow> Inl (InvalidTime line)
        | Some t \<Rightarrow>
            if f ! 1 = ''put'' then put_branch (stamp s t) t f line
            else if f ! 1 = ''get'' \<or> f ! 1 = ''miss'' then get_branch (stamp s t) t f
            else Inr (stamp s t)))"

fun loop :: "entry state \<Rightarrow> string list \<Rightarrow> error + entry state" where
  "loop s [] = Inr s"
| "loop s (line # rest) = (case step s line of Inl e \<Rightarrow> Inl e | Inr s' \<Rightarrow> loop s' rest)"

definition scan :: "string \<Rightarrow> error + entry state" where
  "scan file = loop init (Split file)"

subsection \<open>The report of \<open>main.go\<close>\<close>

text \<open>
  \<open>float64(v)/86400\<close>, the number of days in \<open>v\<close> seconds, as the exact quotient. The
  program rounds it to a \<open>float64\<close> and prints it with \<open>%.2f\<close>; both roundings are left
  out.
\<close>

definition days :: "int \<Rightarrow> real" where
  "days v = real_of_int v / 86400"

text \<open>
  What is written to the output, item by item; an item that shows a number of days holds
  that number. The result of a function that prints is the list of items written and the
  error that ended it, if any.
\<close>

datatype out =
    Banner                        \<comment> \<open>the line asking to add the output to the issue\<close>
  | Fence                         \<comment> \<open>the line of three backquotes\<close>
  | CacheAge real                 \<comment> \<open>\<open>cache age: %.2f days\<close>\<close>
  | CacheLine string int64 int64  \<comment> \<open>\<open>%s cache: %d bytes, %d reused\<close>\<close>
  | NoReuse
  | PercentilesHead
  | DeltaHead
  | Pct nat real                  \<comment> \<open>\<open>%d%% %.2f days\<close> in the loop\<close>
  | P95 real
  | P99 real
  | P999 real
  | PMax real

type_synonym printed = "out list \<times> error option"

text \<open>
  \<open>print_at mk xs j rest\<close>: print \<open>float64(xs[j])/86400\<close>, where \<open>xs[j]\<close> panics out of
  range, then go on with \<open>rest\<close>.
\<close>

definition print_at :: "(real \<Rightarrow> out) \<Rightarrow> int list \<Rightarrow> nat \<Rightarrow> printed \<Rightarrow> printed" where
  "print_at mk xs j rest =
    (if j < length xs then (case rest of (ys, r) \<Rightarrow> (mk (days (xs ! j)) # ys, r))
     else ([], Some IndexOutOfRange))"

text \<open>\<open>for i := 10; i <= 90; i += 10\<close>, from the current \<open>i\<close>, followed by \<open>rest\<close>.\<close>

function pct_loop :: "int list \<Rightarrow> nat \<Rightarrow> printed \<Rightarrow> printed" where
  "pct_loop xs i rest =
    (if i \<le> 90 then print_at (Pct i) xs (length xs * i div 100) (pct_loop xs (i + 10) rest)
     else rest)"
  by pat_completeness auto
termination
  by (relation "measure (\<lambda>(xs, i, rest). 91 - i)") auto

declare pct_loop.simps [simp del]

definition printCache :: "string \<Rightarrow> int64 \<Rightarrow> int64 \<Rightarrow> int list \<Rightarrow> printed" where
  "printCache name tot totalReused reuse =
    (case (if length reuse = 0 then ([NoReuse], None)
           else
             (case pct_loop reuse 10
                     (print_at P95 reuse (length reuse * 95 div 100)
                       (print_at P99 reuse (length reuse * 99 div 100)
                         (print_at P999 reuse (length reuse * 999 div 1000)
                           (print_at PMax reuse (length reuse - 1) ([], None)))))
              of (ys, r) \<Rightarrow> (PercentilesHead # ys, r)))
     of (ys, r) \<Rightarrow> (CacheLine name tot totalReused # ys, r))"

text \<open>One printing after another: a panic in the first ends the sequence.\<close>

definition and_then :: "printed \<Rightarrow> printed \<Rightarrow> printed" where
  "and_then a b =
    (case a of
       (ys, Some e) \<Rightarrow> (ys, Some e)
     | (ys, None) \<Rightarrow> (case b of (zs, r) \<Rightarrow> (ys @ zs, r)))"

text \<open>
  Lines 118 to 127. The deferred \<open>Printf\<close> of the closing fence runs when \<open>main\<close>
  returns and also when it panics.
\<close>

definition report :: "entry state \<Rightarrow> printed" where
  "report s =
    (let reuseA' = sort (reuseA s); reuseD' = sort (reuseD s) in
     case and_then ([Banner, Fence, CacheAge (days (sint (lastTime s - firstTime s)))], None)
            (and_then (printCache ''action'' (totalA s) (totalReusedA s) reuseA')
                      (printCache ''data'' (totalD s) (totalReusedD s) reuseD'))
     of (ys, r) \<Rightarrow> (ys @ [Fence], r))"

text \<open>
  \<open>main\<close> from line 55 on, given the bytes of \<open>log.txt\<close>. \<open>log.Fatalf\<close> exits at
  once: nothing has been printed, and no deferred call runs.
\<close>

definition main :: "string \<Rightarrow> printed" where
  "main file = (case scan file of Inl e \<Rightarrow> ([], Some e) | Inr s \<Rightarrow> report s)"

subsection \<open>The version that also records the time since the last reuse\<close>

record entry_delta = entry +
  lastReused :: int64

record 'e state_delta = "'e state" +
  reuseDeltaA :: "int list"
  reuseDeltaD :: "int list"

definition init_delta :: "entry_delta state_delta" where
  "init_delta = \<lparr>totalA = 0, totalReusedA = 0, totalD = 0, totalReusedD = 0,
                 reuseA = [], reuseD = [], firstTime = 0, lastTime = 0,
                 cache = Map.empty, heap = [], reuseDeltaA = [], reuseDeltaD = []\<rparr>"

definition put_data_delta ::
  "entry_delta state_delta \<Rightarrow> int64 \<Rightarrow> string \<Rightarrow> int64 \<Rightarrow> nat \<times> entry_delta state_delta" where
  "put_data_delta s t k sz =
    (case cache s (k @ ''-d'') of
       Some e1 \<Rightarrow> (e1, s)
     | None \<Rightarrow>
         (length (heap s),
          s\<lparr>heap := heap s @ [\<lparr>created = t, esize = sz, reused = False, data = None,
                                lastReused = 0\<rparr>],
            cache := (cache s)(k @ ''-d'' \<mapsto> length (heap s)),
            totalD := totalD s + sz\<rparr>))"

definition put_action_delta ::
  "entry_delta state_delta \<Rightarrow> int64 \<Rightarrow> string \<Rightarrow> nat \<Rightarrow> entry_delta state_delta" where
  "put_action_delta s t k e1 =
    (case cache s (k @ ''-a'') of
       Some e \<Rightarrow> s
     | None \<Rightarrow>
         s\<lparr>heap := heap s @ [\<lparr>created = t, esize = 154, reused = False, data = Some e1,
                               lastReused = 0\<rparr>],
           cache := (cache s)(k @ ''-a'' \<mapsto> length (heap s)),
           totalA := totalA s + 154\<rparr>)"

definition put_branch_delta ::
  "entry_delta state_delta \<Rightarrow> int64 \<Rightarrow> string list \<Rightarrow> string \<Rightarrow> error + entry_delta state_delta" where
  "put_branch_delta s t f line =
    (case ParseInt (f ! 4) of
       None \<Rightarrow> Inl (InvalidSize line)
     | Some sz \<Rightarrow>
         (case put_data_delta s t (f ! 3) sz of
            (e1, s1) \<Rightarrow> Inr (put_action_delta s1 t (f ! 2) e1)))"

text \<open>Lines 105 to 108 and 109 to 112: the first reuse is recognised by \<open>lastReused == 0\<close>.\<close>

definition mark_action_delta :: "entry_delta state_delta \<Rightarrow> nat \<Rightarrow> entry_delta state_delta" where
  "mark_action_delta s a =
    (if lastReused (heap s ! a) = 0
     then s\<lparr>heap := (heap s)[a := (heap s ! a)\<lparr>lastReused := created (heap s ! a)\<rparr>],
            totalReusedA := totalReusedA s + esize (heap s ! a)\<rparr>
     else s)"

definition mark_data_delta :: "entry_delta state_delta \<Rightarrow> nat \<Rightarrow> entry_delta state_delta" where
  "mark_data_delta s d =
    (if lastReused (heap s ! d) = 0
     then s\<lparr>heap := (heap s)[d := (heap s ! d)\<lparr>lastReused := created (heap s ! d)\<rparr>],
            totalReusedD := totalReusedD s + esize (heap s ! d)\<rparr>
     else s)"

text \<open>Lines 118 and 119: \<open>e.lastReused = t\<close>, then \<open>e.data.lastReused = t\<close>.\<close>

definition touch :: "entry_delta state_delta \<Rightarrow> int64 \<Rightarrow> nat \<Rightarrow> entry_delta state_delta" where
  "touch s t a = s\<lparr>heap := (heap s)[a := (heap s ! a)\<lparr>lastReused := t\<rparr>]\<rparr>"

definition add_samples_delta ::
  "entry_delta state_delta \<Rightarrow> int64 \<Rightarrow> nat \<Rightarrow> nat \<Rightarrow> entry_delta state_delta" where
  "add_samples_delta s t a d =
    s\<lparr>reuseA := reuseA s @ [sint (t - created (heap s ! a))],
      reuseD := reuseD s @ [sint (t - created (heap s ! d))],
      reuseDeltaA := reuseDeltaA s @ [sint (t - lastReused (heap s ! a))],
      reuseDeltaD := reuseDeltaD s @ [sint (t - lastReused (heap s ! d))]\<rparr>"

definition get_branch_delta ::
  "entry_delta state_delta \<Rightarrow> int64 \<Rightarrow> string list \<Rightarrow> error + entry_delta state_delta" where
  "get_branch_delta s t f =
    (case cache s (f ! 2 @ ''-a'') of
       None \<Rightarrow> Inr s
     | Some a \<Rightarrow>
         if length (heap s) \<le> a then Inl MemFault
         else
           (case data (heap (mark_action_delta s a) ! a) of
              None \<Rightarrow> Inl MemFault
            | Some d \<Rightarrow>
                if length (heap (mark_action_delta s a)) \<le> d then Inl MemFault
                else
                  Inr (touch
                         (touch
                            (add_samples_delta (mark_data_delta (mark_action_delta s a) d) t a d)
                            t a)
                         t d)))"

definition step_delta :: "entry_delta state_delta \<Rightarrow> string \<Rightarrow> error + entry_delta state_delta" where
  "step_delta s line =
    (let f = Fields line in
     if length f = 0 then Inr s
     else if length f < 3 \<or> f ! 1 = ''put'' \<and> length f \<noteq> 5 then Inl (InvalidLine line)
     else
       (case ParseInt (f ! 0) of
          None \<Rightarrow> Inl (InvalidTime line)
        | Some t \<Rightarrow>
            if f ! 1 = ''put'' then put_branch_delta (stamp s t) t f line
            else if f ! 1 = ''get'' \<or> f ! 1 = ''miss'' then get_branch_delta (stamp s t) t f
            else Inr (stamp s t)))"

fun loop_delta :: "entry_delta state_delta \<Rightarrow> string list \<Rightarrow> error + entry_delta state_delta" where
  "loop_delta s [] = Inr s"
| "loop_delta s (line # rest) =
    (case step_delta s line of Inl e \<Rightarrow> Inl e | Inr s' \<Rightarrow> loop_delta s' rest)"

definition scan_delta :: "string \<Rightarrow> error + entry_delta state_delta" where
  "scan_delta file = loop_delta init_delta (Split file)"

text \<open>
  \<open>printCache\<close> with the delta samples, lines 137 to 161. The second loop takes its
  index from \<open>len(reuseDelta)\<close>; the four lines after it index \<open>reuseDelta\<close> with
  numbers computed from \<open>len(reuse)\<close>.
\<close>

definition printCache_delta ::
  "string \<Rightarrow> int64 \<Rightarrow> int64 \<Rightarrow> int list \<Rightarrow> int list \<Rightarrow> printed" where
  "printCache_delta name tot totalReused reuse reuseDelta =
    (case (if length reuse = 0 then ([NoReuse], None)
           else
             (case pct_loop reuse 10
                     (print_at P95 reuse (length reuse * 95 div 100)
                       (print_at P99 reuse (length reuse * 99 div 100)
                         (print_at P999 reuse (length reuse * 999 div 1000)
                           (print_at PMax reuse (length reuse - 1)
                             (case pct_loop reuseDelta 10
                                     (print_at P95 reuseDelta (length reuse * 95 div 100)
                                       (print_at P99 reuseDelta (length reuse * 99 div 100)
                                         (print_at P999 reuseDelta (length reuse * 999 div 1000)
                                           (print_at PMax reuseDelta (length reuse - 1)
                                             ([], None)))))
                              of (zs, r) \<Rightarrow> (DeltaHead # zs, r))))))
              of (ys, r) \<Rightarrow> (PercentilesHead # ys, r)))
     of (ys, r) \<Rightarrow> (CacheLine name tot totalReused # ys, r))"

definition report_delta :: "entry_delta state_delta \<Rightarrow> printed" where
  "report_delta s =
    (let reuseA' = sort (reuseA s); reuseD' = sort (reuseD s);
         reuseDeltaA' = sort (reuseDeltaA s); reuseDeltaD' = sort (reuseDeltaD s) in
     case and_then ([Banner, Fence, CacheAge (days (sint (lastTime s - firstTime s)))], None)
            (and_then
               (printCache_delta ''action'' (totalA s) (totalReusedA s) reuseA' reuseDeltaA')
               (printCache_delta ''data'' (totalD s) (totalReusedD s) reuseD' reuseDeltaD'))
     of (ys, r) \<Rightarrow> (ys @ [Fence], r))"

definition main_delta :: "string \<Rightarrow> printed" where
  "main_delta file =
    (case scan_delta file of Inl e \<Rightarrow> ([], Some e) | Inr s \<Rightarrow> report_delta s)"

section \<open>Properties\<close>

subsection \<open>Notions used in the statements\<close>

text \<open>
  A state is well formed when every pointer it holds is an address of the heap, the
  entries registered under action keys point to an entry, the entries registered under
  data keys do not, and every \<open>data\<close> pointer leads to an entry without one.
\<close>

definition wf :: "('e entry_scheme, 'm) state_scheme \<Rightarrow> bool" where
  "wf s \<longleftrightarrow>
     (\<forall>k a. cache s k = Some a \<longrightarrow> a < length (heap s)) \<and>
     (\<forall>x a. cache s (x @ ''-a'') = Some a \<longrightarrow> data (heap s ! a) \<noteq> None) \<and>
     (\<forall>x a. cache s (x @ ''-d'') = Some a \<longrightarrow> data (heap s ! a) = None) \<and>
     (\<forall>a d. a < length (heap s) \<longrightarrow> data (heap s ! a) = Some d \<longrightarrow>
        d < length (heap s) \<and> data (heap s ! d) = None)"

text \<open>What the scan hands to the report, apart from the delta samples.\<close>

definition summary ::
  "('e, 'm) state_scheme \<Rightarrow>
     int64 \<times> int64 \<times> int64 \<times> int64 \<times> int list \<times> int list \<times> int64 \<times> int64" where
  "summary s = (totalA s, totalReusedA s, totalD s, totalReusedD s,
                reuseA s, reuseD s, firstTime s, lastTime s)"

text \<open>
  The percentile lines as the specification words them: for \<open>p\<close> from 10 to 90 in steps
  of 10, then 95 and 99, the element at \<open>len * p div 100\<close>; for 99.9 the element at
  \<open>len * 999 div 1000\<close>; last the element at \<open>len - 1\<close>; each divided by 86400.
  \<open>indices\<close> lists the thirteen positions.
\<close>

definition percentiles :: "int list \<Rightarrow> out list" where
  "percentiles ys =
    (let n = length ys in
     [Pct 10 (days (ys ! (n * 10 div 100))), Pct 20 (days (ys ! (n * 20 div 100))),
      Pct 30 (days (ys ! (n * 30 div 100))), Pct 40 (days (ys ! (n * 40 div 100))),
      Pct 50 (days (ys ! (n * 50 div 100))), Pct 60 (days (ys ! (n * 60 div 100))),
      Pct 70 (days (ys ! (n * 70 div 100))), Pct 80 (days (ys ! (n * 80 div 100))),
      Pct 90 (days (ys ! (n * 90 div 100))), P95 (days (ys ! (n * 95 div 100))),
      P99 (days (ys ! (n * 99 div 100))), P999 (days (ys ! (n * 999 div 1000))),
      PMax (days (ys ! (n - 1)))])"

definition indices :: "nat \<Rightarrow> nat list" where
  "indices n = [n * 10 div 100, n * 20 div 100, n * 30 div 100, n * 40 div 100,
                n * 50 div 100, n * 60 div 100, n * 70 div 100, n * 80 div 100,
                n * 90 div 100, n * 95 div 100, n * 99 div 100, n * 999 div 1000, n - 1]"

text \<open>
  The part of the report on one cache, as the specification words it: the line with the
  totals, then \<open>no reuse\<close> for an empty sample sequence and the percentile lines
  otherwise; in the version with delta samples the percentile lines of the delta
  sequence follow.
\<close>

definition block :: "string \<Rightarrow> int64 \<Rightarrow> int64 \<Rightarrow> int list \<Rightarrow> out list" where
  "block name tot tr ys =
    CacheLine name tot tr # (if ys = [] then [NoReuse] else PercentilesHead # percentiles ys)"

definition block_delta :: "string \<Rightarrow> int64 \<Rightarrow> int64 \<Rightarrow> int list \<Rightarrow> int list \<Rightarrow> out list" where
  "block_delta name tot tr ys us =
    CacheLine name tot tr #
    (if ys = [] then [NoReuse]
     else PercentilesHead # percentiles ys @ DeltaHead # percentiles us)"

text \<open>
  \<open>number\<close> is the number of days a percentile line shows, \<open>numbers\<close> those of a list of
  items, and \<open>runs\<close> cuts an output into its runs of percentile lines: every other item
  ends the run before it, so the runs of a report are the percentile tables it prints,
  each in the order printed.
\<close>

fun number :: "out \<Rightarrow> real option" where
  "number (Pct i v) = Some v"
| "number (P95 v) = Some v"
| "number (P99 v) = Some v"
| "number (P999 v) = Some v"
| "number (PMax v) = Some v"
| "number _ = None"

definition numbers :: "out list \<Rightarrow> real list" where
  "numbers ys = List.map_filter number ys"

fun runs :: "out list \<Rightarrow> real list list" where
  "runs [] = []"
| "runs (x # xs) =
    (case number x of
       None \<Rightarrow> [] # runs xs
     | Some v \<Rightarrow> (case runs xs of [] \<Rightarrow> [[v]] | ns # rest \<Rightarrow> (v # ns) # rest))"

text \<open>
  Lines 105 to 119 of the version with delta samples, once \<open>e\<close> and \<open>e.data\<close> are
  known to be the addresses \<open>a\<close> and \<open>d\<close> of entries.
\<close>

definition reuse_delta ::
  "entry_delta state_delta \<Rightarrow> int64 \<Rightarrow> nat \<Rightarrow> nat \<Rightarrow> entry_delta state_delta" where
  "reuse_delta s t a d =
     touch (touch (add_samples_delta (mark_data_delta (mark_action_delta s a) d) t a d) t a) t d"

text \<open>
  A malformed line, in the words of the specification: a non-empty line with fewer than
  three fields, a \<open>put\<close> line that does not have exactly five fields, a line whose time
  does not parse, or a \<open>put\<close> line whose size does not parse.
\<close>

definition malformed :: "string \<Rightarrow> bool" where
  "malformed line \<longleftrightarrow>
    (let f = Fields line in
     f \<noteq> [] \<and>
     (length f < 3 \<or> f ! 1 = ''put'' \<and> length f \<noteq> 5 \<or> ParseInt (f ! 0) = None \<or>
      f ! 1 = ''put'' \<and> ParseInt (f ! 4) = None))"

text \<open>Every entry registered under an action key points to an entry of the heap.\<close>

definition actions_have_data :: "('e entry_scheme, 'm) state_scheme \<Rightarrow> bool" where
  "actions_have_data s \<longleftrightarrow>
     (\<forall>x a. cache s (x @ ''-a'') = Some a \<longrightarrow>
        a < length (heap s) \<and> (\<exists>d. data (heap s ! a) = Some d \<and> d < length (heap s)))"

text \<open>
  \<open>kept s s'\<close>: from \<open>s\<close> to \<open>s'\<close> no key lost its entry and no entry of \<open>s\<close> changed its
  \<open>created\<close>, \<open>size\<close> or \<open>data\<close>. \<open>untouched_since s1 s s' key\<close>: the entry registered
  under \<open>key\<close> in \<open>s1\<close> is still the one registered in \<open>s'\<close>, the step from \<open>s\<close> to \<open>s'\<close>
  changed no field of it, and its \<open>created\<close>, \<open>size\<close> and \<open>data\<close> are those of \<open>s1\<close>.
\<close>

definition kept :: "('e entry_scheme, 'm) state_scheme \<Rightarrow> ('e entry_scheme, 'm) state_scheme \<Rightarrow> bool" where
  "kept s s' \<longleftrightarrow>
     length (heap s) \<le> length (heap s') \<and>
     (\<forall>k a. cache s k = Some a \<longrightarrow> cache s' k = Some a) \<and>
     (\<forall>a < length (heap s).
        created (heap s' ! a) = created (heap s ! a) \<and>
        esize (heap s' ! a) = esize (heap s ! a) \<and>
        data (heap s' ! a) = data (heap s ! a))"

text \<open>A line whose second field is \<open>put\<close>.\<close>

definition is_put :: "string \<Rightarrow> bool" where
  "is_put line \<longleftrightarrow> 2 \<le> length (Fields line) \<and> Fields line ! 1 = ''put''"

definition untouched_since ::
  "('e entry_scheme, 'm) state_scheme \<Rightarrow> ('e entry_scheme, 'm) state_scheme \<Rightarrow>
   ('e entry_scheme, 'm) state_scheme \<Rightarrow> string \<Rightarrow> bool" where
  "untouched_since s1 s s' key \<longleftrightarrow>
     (\<exists>a. cache s1 key = Some a \<and> a < length (heap s1) \<and> cache s' key = Some a \<and>
          heap s' ! a = heap s ! a \<and>
          created (heap s' ! a) = created (heap s1 ! a) \<and>
          esize (heap s' ! a) = esize (heap s1 ! a) \<and>
          data (heap s' ! a) = data (heap s1 ! a))"

text \<open>The sample sequences have one length.\<close>

definition balanced :: "('e, 'm) state_scheme \<Rightarrow> bool" where
  "balanced s \<longleftrightarrow> length (reuseA s) = length (reuseD s)"

definition balanced_delta :: "('e, 'm) state_delta_scheme \<Rightarrow> bool" where
  "balanced_delta s \<longleftrightarrow>
     length (reuseD s) = length (reuseA s) \<and> length (reuseDeltaA s) = length (reuseA s) \<and>
     length (reuseDeltaD s) = length (reuseA s)"

text \<open>The time fields of the non-empty lines of a log, in order, each as \<open>ParseInt\<close> reads it.\<close>

definition stamps :: "string list \<Rightarrow> int64 option list" where
  "stamps ls = map (\<lambda>l. ParseInt (Fields l ! 0)) (filter (\<lambda>l. Fields l \<noteq> []) ls)"

text \<open>
  A \<open>get\<close> or \<open>miss\<close> line with the time 0. Two states, one of each version, correspond
  when they agree on the base outputs and on the registry, and their heaps hold, address
  by address, entries with the same \<open>created\<close>, \<open>size\<close> and \<open>data\<close>, reused in the one
  exactly when \<open>lastReused\<close> is not 0 in the other.
\<close>

definition zero_get :: "string \<Rightarrow> bool" where
  "zero_get line \<longleftrightarrow>
    (let f = Fields line in
     3 \<le> length f \<and> (f ! 1 = ''get'' \<or> f ! 1 = ''miss'') \<and> ParseInt (f ! 0) = Some 0)"

definition entry_sim :: "entry \<Rightarrow> entry_delta \<Rightarrow> bool" where
  "entry_sim e ed \<longleftrightarrow>
     created e = created ed \<and> esize e = esize ed \<and> data e = data ed \<and>
     (reused e \<longleftrightarrow> lastReused ed \<noteq> 0)"

definition sim :: "entry state \<Rightarrow> entry_delta state_delta \<Rightarrow> bool" where
  "sim s sd \<longleftrightarrow>
     summary s = summary sd \<and> cache s = cache sd \<and> list_all2 entry_sim (heap s) (heap sd)"

text \<open>
  \<open>hit s l\<close>: the line \<open>l\<close> is a \<open>get\<close> or \<open>miss\<close> on an action key registered in \<open>s\<close>; the
  result is its time and the address of the action entry. \<open>counted_once used s l s'\<close>
  describes the step from \<open>s\<close> to \<open>s'\<close> by the line \<open>l\<close>, where \<open>used\<close> tells whether an
  entry counts as reused: no entry in use falls out of use and no new entry is in use; a
  line that is no hit changes neither the totals of reused bytes, nor the samples, nor
  which entries are in use; a hit puts its action entry and its data entry in use, adds
  the size of each to its total exactly when that entry was not in use before, appends
  one sample to each sequence and leaves every other entry as it was.

  \<open>accounted used s\<close>: \<open>totalReusedA\<close> is the sum of the sizes of the action entries in
  use, and \<open>totalReusedD\<close> that of the data entries in use; so every entry in use has
  been counted once and no other entry has been counted. Action entries are those with a
  \<open>data\<close> pointer.
\<close>

definition hit :: "('e, 'm) state_scheme \<Rightarrow> string \<Rightarrow> (int64 \<times> nat) option" where
  "hit s l =
    (let f = Fields l in
     if 3 \<le> length f \<and> (f ! 1 = ''get'' \<or> f ! 1 = ''miss'')
     then (case ParseInt (f ! 0) of
             None \<Rightarrow> None
           | Some t \<Rightarrow> (case cache s (f ! 2 @ ''-a'') of None \<Rightarrow> None | Some a \<Rightarrow> Some (t, a)))
     else None)"

definition counted_once ::
  "('e entry_scheme \<Rightarrow> bool) \<Rightarrow> ('e entry_scheme, 'm) state_scheme \<Rightarrow> string \<Rightarrow>
   ('e entry_scheme, 'm) state_scheme \<Rightarrow> bool" where
  "counted_once used s l s' \<longleftrightarrow>
     (\<forall>b < length (heap s). used (heap s ! b) \<longrightarrow> used (heap s' ! b)) \<and>
     (\<forall>b < length (heap s'). length (heap s) \<le> b \<longrightarrow> \<not> used (heap s' ! b)) \<and>
     (case hit s l of
        None \<Rightarrow>
          totalReusedA s' = totalReusedA s \<and> totalReusedD s' = totalReusedD s \<and>
          reuseA s' = reuseA s \<and> reuseD s' = reuseD s \<and>
          (\<forall>b < length (heap s). used (heap s' ! b) = used (heap s ! b))
      | Some (t, a) \<Rightarrow>
          (\<exists>d. data (heap s ! a) = Some d \<and> used (heap s' ! a) \<and> used (heap s' ! d) \<and>
             totalReusedA s' =
               (if used (heap s ! a) then totalReusedA s else totalReusedA s + esize (heap s ! a)) \<and>
             totalReusedD s' =
               (if used (heap s ! d) then totalReusedD s else totalReusedD s + esize (heap s ! d)) \<and>
             reuseA s' = reuseA s @ [sint (t - created (heap s ! a))] \<and>
             reuseD s' = reuseD s @ [sint (t - created (heap s ! d))] \<and>
             (\<forall>b < length (heap s). b \<noteq> a \<longrightarrow> b \<noteq> d \<longrightarrow>
                used (heap s' ! b) = used (heap s ! b))))"

definition credit :: "('e entry_scheme \<Rightarrow> bool) \<Rightarrow> bool \<Rightarrow> 'e entry_scheme \<Rightarrow> int64" where
  "credit used act e = (if used e \<and> (data e \<noteq> None) = act then esize e else 0)"

definition credited :: "('e entry_scheme \<Rightarrow> bool) \<Rightarrow> bool \<Rightarrow> 'e entry_scheme list \<Rightarrow> int64" where
  "credited used act h = sum_list (map (credit used act) h)"

definition accounted ::
  "('e entry_scheme \<Rightarrow> bool) \<Rightarrow> ('e entry_scheme, 'm) state_scheme \<Rightarrow> bool" where
  "accounted used s \<longleftrightarrow>
     totalReusedA s = credited used True (heap s) \<and>
     totalReusedD s = credited used False (heap s)"

subsection \<open>Running the model on a given file\<close>

lemmas eval_parse = Fields_def emit_def asciiSpace_def ParseInt_def ParseUint_def
  digits_val_def is_digit_def Let_def

lemmas eval_scan = scan_def init_def step_def stamp_def put_branch_def put_data_def
  put_action_def get_branch_def mark_action_def mark_data_def add_samples_def eval_parse

lemmas eval_scan_delta = scan_delta_def init_delta_def step_delta_def stamp_def
  put_branch_delta_def put_data_delta_def put_action_delta_def get_branch_delta_def
  mark_action_delta_def mark_data_delta_def add_samples_delta_def touch_def eval_parse

subsection \<open>Well-formedness is kept by the scan of \<open>main.go\<close>\<close>

lemma key_a_neq_d [simp]: "x @ ''-a'' \<noteq> y @ ''-d''" "y @ ''-d'' \<noteq> x @ ''-a''"
proof -
  have "last (x @ ''-a'') \<noteq> last (y @ ''-d'')" by simp
  then show "x @ ''-a'' \<noteq> y @ ''-d''" by metis
  then show "y @ ''-d'' \<noteq> x @ ''-a''" by metis
qed

lemma wf_init: "wf init"
  by (simp add: wf_def init_def)

lemma wfI:
  assumes "\<And>k a. cache s k = Some a \<Longrightarrow> a < length (heap s)"
    and "\<And>x a. cache s (x @ ''-a'') = Some a \<Longrightarrow> data (heap s ! a) \<noteq> None"
    and "\<And>x a. cache s (x @ ''-d'') = Some a \<Longrightarrow> data (heap s ! a) = None"
    and "\<And>a d. a < length (heap s) \<Longrightarrow> data (heap s ! a) = Some d \<Longrightarrow>
           d < length (heap s) \<and> data (heap s ! d) = None"
  shows "wf s"
  using assms unfolding wf_def by blast

lemma wf_cacheD: "wf s \<Longrightarrow> cache s k = Some a \<Longrightarrow> a < length (heap s)"
  unfolding wf_def by blast

lemma wf_actionD: "wf s \<Longrightarrow> cache s (x @ ''-a'') = Some a \<Longrightarrow> data (heap s ! a) \<noteq> None"
  unfolding wf_def by blast

lemma wf_dataD: "wf s \<Longrightarrow> cache s (x @ ''-d'') = Some a \<Longrightarrow> data (heap s ! a) = None"
  unfolding wf_def by blast

lemma wf_refD:
  "wf s \<Longrightarrow> a < length (heap s) \<Longrightarrow> data (heap s ! a) = Some d \<Longrightarrow>
     d < length (heap s) \<and> data (heap s ! d) = None"
  unfolding wf_def by blast

text \<open>Allocation: a new entry at the end of the heap, registered under a new key.\<close>

lemma wf_alloc:
  assumes wf: "wf s" and new: "cache s key = None"
    and h': "heap s' = heap s @ [e]" and c': "cache s' = (cache s)(key \<mapsto> length (heap s))"
    and e: "case data e of None \<Rightarrow> (\<exists>x. key = x @ ''-d'')
            | Some d \<Rightarrow> (\<exists>x. key = x @ ''-a'') \<and> d < length (heap s) \<and> data (heap s ! d) = None"
  shows "wf s'"
proof (rule wfI)
  fix k a assume "cache s' k = Some a"
  then show "a < length (heap s')"
    using wf_cacheD [OF wf, of k a] by (simp add: h' c' split: if_splits)
next
  fix x a assume a: "cache s' (x @ ''-a'') = Some a"
  show "data (heap s' ! a) \<noteq> None"
  proof (cases "key = x @ ''-a''")
    case True
    with a e show ?thesis by (auto simp: h' c' split: option.splits)
  next
    case False
    with a have ca: "cache s (x @ ''-a'') = Some a" by (simp add: c')
    from wf_cacheD [OF wf ca] wf_actionD [OF wf ca] show ?thesis by (simp add: h' nth_append)
  qed
next
  fix x a assume a: "cache s' (x @ ''-d'') = Some a"
  show "data (heap s' ! a) = None"
  proof (cases "key = x @ ''-d''")
    case True
    with a e show ?thesis by (auto simp: h' c' split: option.splits)
  next
    case False
    with a have ca: "cache s (x @ ''-d'') = Some a" by (simp add: c')
    from wf_cacheD [OF wf ca] wf_dataD [OF wf ca] show ?thesis by (simp add: h' nth_append)
  qed
next
  fix a d assume a: "a < length (heap s')" and d: "data (heap s' ! a) = Some d"
  show "d < length (heap s') \<and> data (heap s' ! d) = None"
  proof (cases "a < length (heap s)")
    case True
    with d have "data (heap s ! a) = Some d" by (simp add: h' nth_append)
    from wf_refD [OF wf True this] show ?thesis by (simp add: h' nth_append)
  next
    case False
    with a have "a = length (heap s)" by (simp add: h')
    with d e show ?thesis by (auto simp: h' nth_append)
  qed
qed

lemma wf_put_data:
  assumes "wf s"
  shows "wf (snd (put_data s t k sz)) \<and>
         fst (put_data s t k sz) < length (heap (snd (put_data s t k sz))) \<and>
         data (heap (snd (put_data s t k sz)) ! fst (put_data s t k sz)) = None"
proof (cases "cache s (k @ ''-d'')")
  case None
  have "wf (snd (put_data s t k sz))"
    by (rule wf_alloc [OF assms None, where e = "\<lparr>created = t, esize = sz, reused = False, data = None\<rparr>"])
       (simp_all add: put_data_def None)
  then show ?thesis by (simp add: put_data_def None)
next
  case (Some a)
  with assms wf_cacheD [OF assms Some] wf_dataD [OF assms Some] show ?thesis
    by (simp add: put_data_def)
qed

lemma wf_put_action:
  assumes "wf s" "e1 < length (heap s)" "data (heap s ! e1) = None"
  shows "wf (put_action s t k e1)"
proof (cases "cache s (k @ ''-a'')")
  case None
  show ?thesis
    by (rule wf_alloc [OF assms(1) None, where e = "\<lparr>created = t, esize = 154, reused = False, data = Some e1\<rparr>"])
       (simp_all add: put_action_def None assms)
next
  case (Some a)
  with assms show ?thesis by (simp add: put_action_def)
qed

lemma wf_put_branch: 
  assumes "wf s" "put_branch s t f line = Inr s'" shows "wf s'"
proof -
  from assms(2) obtain sz where sz: "ParseInt (f ! 4) = Some sz"
    and s': "s' = put_action (snd (put_data s t (f ! 3) sz)) t (f ! 2) (fst (put_data s t (f ! 3) sz))"
    by (auto simp: put_branch_def split: option.splits prod.splits)
  from wf_put_data [OF assms(1), of t "f ! 3" sz] show ?thesis
    unfolding s' by (blast intro: wf_put_action)
qed

lemma nth_upd: "(xs[i := x]) ! j = (if i = j \<and> i < length xs then x else xs ! j)"
  by (cases "i < length xs") (simp_all add: nth_list_update list_update_beyond)

lemma wf_update:
  assumes wf: "wf s" and c': "cache s' = cache s"
    and h': "heap s' = (heap s)[a := e]" and e: "data e = data (heap s ! a)"
  shows "wf s'"
proof (rule wfI)
  fix k b assume "cache s' k = Some b"
  then show "b < length (heap s')" using wf_cacheD [OF wf, of k b] by (simp add: h' c')
next
  fix x b assume "cache s' (x @ ''-a'') = Some b"
  then have cb: "cache s (x @ ''-a'') = Some b" by (simp add: c')
  from wf_cacheD [OF wf cb] wf_actionD [OF wf cb] e show "data (heap s' ! b) \<noteq> None"
    by (auto simp: h' nth_upd)
next
  fix x b assume "cache s' (x @ ''-d'') = Some b"
  then have cb: "cache s (x @ ''-d'') = Some b" by (simp add: c')
  from wf_cacheD [OF wf cb] wf_dataD [OF wf cb] e show "data (heap s' ! b) = None"
    by (auto simp: h' nth_upd)
next
  fix b d assume b: "b < length (heap s')" and d: "data (heap s' ! b) = Some d"
  from b have b': "b < length (heap s)" by (simp add: h')
  with d e have "data (heap s ! b) = Some d" by (simp add: h' nth_upd split: if_splits)
  from wf_refD [OF wf b' this] e show "d < length (heap s') \<and> data (heap s' ! d) = None"
    by (auto simp: h' nth_upd)
qed

lemma mark_action_frame [simp]:
  "length (heap (mark_action s a)) = length (heap s)"
  "cache (mark_action s a) = cache s"
  "data (heap (mark_action s a) ! b) = data (heap s ! b)"
  "created (heap (mark_action s a) ! b) = created (heap s ! b)"
  "esize (heap (mark_action s a) ! b) = esize (heap s ! b)"
  "totalA (mark_action s a) = totalA s" "totalD (mark_action s a) = totalD s"
  "totalReusedD (mark_action s a) = totalReusedD s"
  "reuseA (mark_action s a) = reuseA s" "reuseD (mark_action s a) = reuseD s"
  "firstTime (mark_action s a) = firstTime s" "lastTime (mark_action s a) = lastTime s"
  by (simp_all add: mark_action_def nth_upd)

lemma mark_data_frame [simp]:
  "length (heap (mark_data s a)) = length (heap s)"
  "cache (mark_data s a) = cache s"
  "data (heap (mark_data s a) ! b) = data (heap s ! b)"
  "created (heap (mark_data s a) ! b) = created (heap s ! b)"
  "esize (heap (mark_data s a) ! b) = esize (heap s ! b)"
  "totalA (mark_data s a) = totalA s" "totalD (mark_data s a) = totalD s"
  "totalReusedA (mark_data s a) = totalReusedA s"
  "reuseA (mark_data s a) = reuseA s" "reuseD (mark_data s a) = reuseD s"
  "firstTime (mark_data s a) = firstTime s" "lastTime (mark_data s a) = lastTime s"
  by (simp_all add: mark_data_def nth_upd)

lemma add_samples_frame [simp]:
  "heap (add_samples s t a d) = heap s"
  "cache (add_samples s t a d) = cache s"
  "totalA (add_samples s t a d) = totalA s" "totalD (add_samples s t a d) = totalD s"
  "totalReusedA (add_samples s t a d) = totalReusedA s"
  "totalReusedD (add_samples s t a d) = totalReusedD s"
  "firstTime (add_samples s t a d) = firstTime s" "lastTime (add_samples s t a d) = lastTime s"
  "reuseA (add_samples s t a d) = reuseA s @ [sint (t - created (heap s ! a))]"
  "reuseD (add_samples s t a d) = reuseD s @ [sint (t - created (heap s ! d))]"
  by (simp_all add: add_samples_def)

lemma get_branch_miss: "cache s (f ! 2 @ ''-a'') = None \<Longrightarrow> get_branch s t f = Inr s"
  by (simp add: get_branch_def)

lemma get_branch_hit:
  "cache s (f ! 2 @ ''-a'') = Some a \<Longrightarrow> a < length (heap s) \<Longrightarrow> data (heap s ! a) = Some d \<Longrightarrow>
   d < length (heap s) \<Longrightarrow>
   get_branch s t f = Inr (add_samples (mark_data (mark_action s a) d) t a d)"
  by (simp add: get_branch_def)

lemma get_branch_Inr:
  assumes "get_branch s t f = Inr s'"
  shows "cache s (f ! 2 @ ''-a'') = None \<and> s' = s \<or>
         (\<exists>a d. cache s (f ! 2 @ ''-a'') = Some a \<and> a < length (heap s) \<and>
                 data (heap s ! a) = Some d \<and> d < length (heap s) \<and>
                 s' = add_samples (mark_data (mark_action s a) d) t a d)"
  using assms by (simp add: get_branch_def split: option.splits if_splits)

lemma get_branch_wf:
  assumes "wf s"
  shows "get_branch s t f =
          (case cache s (f ! 2 @ ''-a'') of None \<Rightarrow> Inr s
           | Some a \<Rightarrow> Inr (add_samples (mark_data (mark_action s a) (the (data (heap s ! a)))) t a
                              (the (data (heap s ! a)))))"
proof (cases "cache s (f ! 2 @ ''-a'')")
  case None
  then show ?thesis by (simp add: get_branch_miss)
next
  case (Some a)
  from wf_cacheD [OF assms Some] have a: "a < length (heap s)" .
  from wf_actionD [OF assms Some] obtain d where d: "data (heap s ! a) = Some d" by auto
  from wf_refD [OF assms a d] have "d < length (heap s)" by simp
  with Some a d show ?thesis by (simp add: get_branch_hit)
qed

lemma wf_mark_action: "wf s \<Longrightarrow> wf (mark_action s a)"
  by (cases "reused (heap s ! a)")
     (simp_all add: mark_action_def wf_update [where a = a and e = "(heap s ! a)\<lparr>reused := True\<rparr>"])

lemma wf_mark_data: "wf s \<Longrightarrow> wf (mark_data s a)"
  by (cases "reused (heap s ! a)")
     (simp_all add: mark_data_def wf_update [where a = a and e = "(heap s ! a)\<lparr>reused := True\<rparr>"])

lemma wf_same: "cache s' = cache s \<Longrightarrow> heap s' = heap s \<Longrightarrow> wf s' = wf s"
  by (simp add: wf_def)

lemma wf_add_samples: "wf (add_samples s t a d) = wf s"
  by (rule wf_same) simp_all

lemma wf_get_branch:
  assumes "wf s" "get_branch s t f = Inr s'" shows "wf s'"
proof -
  have "wf (add_samples (mark_data (mark_action s a) d) t a d)" for a d
    by (simp add: wf_add_samples wf_mark_data wf_mark_action assms(1))
  with get_branch_Inr [OF assms(2)] assms(1) show ?thesis by auto
qed

lemma stamp_frame [simp]:
  "heap (stamp s t) = heap s" "cache (stamp s t) = cache s"
  "totalA (stamp s t) = totalA s" "totalD (stamp s t) = totalD s"
  "totalReusedA (stamp s t) = totalReusedA s" "totalReusedD (stamp s t) = totalReusedD s"
  "reuseA (stamp s t) = reuseA s" "reuseD (stamp s t) = reuseD s"
  "lastTime (stamp s t) = t"
  "firstTime (stamp s t) = (if firstTime s = 0 then t else firstTime s)"
  by (simp_all add: stamp_def)

lemma wf_stamp: "wf (stamp s t) = wf s"
  by (rule wf_same) simp_all

lemma step_empty: "Fields line = [] \<Longrightarrow> step s line = Inr s"
  by (simp add: step_def)

lemma step_cases [consumes 1, case_names empty put get other]:
  assumes "step s line = Inr s'"
  obtains "Fields line = []" "s' = s"
  | t where "length (Fields line) = 5" "Fields line ! 1 = ''put''"
      "ParseInt (Fields line ! 0) = Some t"
      "put_branch (stamp s t) t (Fields line) line = Inr s'"
  | t where "3 \<le> length (Fields line)" "Fields line ! 1 = ''get'' \<or> Fields line ! 1 = ''miss''"
      "ParseInt (Fields line ! 0) = Some t"
      "get_branch (stamp s t) t (Fields line) = Inr s'"
  | t where "3 \<le> length (Fields line)" "Fields line ! 1 \<noteq> ''put''"
      "Fields line ! 1 \<noteq> ''get''" "Fields line ! 1 \<noteq> ''miss''"
      "ParseInt (Fields line ! 0) = Some t" "s' = stamp s t"
  using assms
  by (simp add: step_def Let_def split: if_splits option.splits)

lemma wf_step:
  assumes "wf s" "step s line = Inr s'" shows "wf s'"
  using assms(2)
proof (cases rule: step_cases)
  case empty
  with assms(1) show ?thesis by simp
next
  case (put t)
  from wf_put_branch [OF _ put(4)] assms(1) show ?thesis by (simp add: wf_stamp)
next
  case (get t)
  from wf_get_branch [OF _ get(4)] assms(1) show ?thesis by (simp add: wf_stamp)
next
  case (other t)
  with assms(1) show ?thesis by (simp add: wf_stamp)
qed

lemma wf_loop: "wf s \<Longrightarrow> loop s ls = Inr s' \<Longrightarrow> wf s'"
proof (induction ls arbitrary: s)
  case Nil
  then show ?case by simp
next
  case (Cons l ls)
  then show ?case by (auto split: sum.splits dest: wf_step)
qed

subsection \<open>Well-formedness is kept by the scan with delta samples\<close>

lemma wf_init_delta: "wf init_delta"
  by (simp add: wf_def init_delta_def)

lemma wf_put_data_delta:
  assumes "wf s"
  shows "wf (snd (put_data_delta s t k sz)) \<and>
         fst (put_data_delta s t k sz) < length (heap (snd (put_data_delta s t k sz))) \<and>
         data (heap (snd (put_data_delta s t k sz)) ! fst (put_data_delta s t k sz)) = None"
proof (cases "cache s (k @ ''-d'')")
  case None
  have "wf (snd (put_data_delta s t k sz))"
    by (rule wf_alloc [OF assms None, where
          e = "\<lparr>created = t, esize = sz, reused = False, data = None, lastReused = 0\<rparr>"])
       (simp_all add: put_data_delta_def None)
  then show ?thesis by (simp add: put_data_delta_def None)
next
  case (Some a)
  with assms wf_cacheD [OF assms Some] wf_dataD [OF assms Some] show ?thesis
    by (simp add: put_data_delta_def)
qed

lemma wf_put_action_delta:
  assumes "wf s" "e1 < length (heap s)" "data (heap s ! e1) = None"
  shows "wf (put_action_delta s t k e1)"
proof (cases "cache s (k @ ''-a'')")
  case None
  show ?thesis
    by (rule wf_alloc [OF assms(1) None, where
          e = "\<lparr>created = t, esize = 154, reused = False, data = Some e1, lastReused = 0\<rparr>"])
       (simp_all add: put_action_delta_def None assms)
next
  case (Some a)
  with assms show ?thesis by (simp add: put_action_delta_def)
qed

lemma put_branch_delta_Inr:
  assumes "put_branch_delta s t f line = Inr s'"
  obtains sz where "ParseInt (f ! 4) = Some sz"
    "s' = put_action_delta (snd (put_data_delta s t (f ! 3) sz)) t (f ! 2)
            (fst (put_data_delta s t (f ! 3) sz))"
  using assms by (auto simp: put_branch_delta_def split: option.splits prod.splits)

lemma wf_put_branch_delta:
  assumes "wf s" "put_branch_delta s t f line = Inr s'" shows "wf s'"
proof -
  from assms(2) obtain sz where 
    s': "s' = put_action_delta (snd (put_data_delta s t (f ! 3) sz)) t (f ! 2)
               (fst (put_data_delta s t (f ! 3) sz))"
    by (rule put_branch_delta_Inr)
  from wf_put_data_delta [OF assms(1), of t "f ! 3" sz] show ?thesis
    unfolding s' by (blast intro: wf_put_action_delta)
qed

lemma mark_action_delta_frame [simp]:
  "length (heap (mark_action_delta s a)) = length (heap s)"
  "cache (mark_action_delta s a) = cache s"
  "data (heap (mark_action_delta s a) ! b) = data (heap s ! b)"
  "created (heap (mark_action_delta s a) ! b) = created (heap s ! b)"
  "esize (heap (mark_action_delta s a) ! b) = esize (heap s ! b)"
  "totalA (mark_action_delta s a) = totalA s" "totalD (mark_action_delta s a) = totalD s"
  "totalReusedD (mark_action_delta s a) = totalReusedD s"
  "reuseA (mark_action_delta s a) = reuseA s" "reuseD (mark_action_delta s a) = reuseD s"
  "reuseDeltaA (mark_action_delta s a) = reuseDeltaA s"
  "reuseDeltaD (mark_action_delta s a) = reuseDeltaD s"
  "firstTime (mark_action_delta s a) = firstTime s"
  "lastTime (mark_action_delta s a) = lastTime s"
  by (simp_all add: mark_action_delta_def nth_upd)

lemma mark_data_delta_frame [simp]:
  "length (heap (mark_data_delta s a)) = length (heap s)"
  "cache (mark_data_delta s a) = cache s"
  "data (heap (mark_data_delta s a) ! b) = data (heap s ! b)"
  "created (heap (mark_data_delta s a) ! b) = created (heap s ! b)"
  "esize (heap (mark_data_delta s a) ! b) = esize (heap s ! b)"
  "totalA (mark_data_delta s a) = totalA s" "totalD (mark_data_delta s a) = totalD s"
  "totalReusedA (mark_data_delta s a) = totalReusedA s"
  "reuseA (mark_data_delta s a) = reuseA s" "reuseD (mark_data_delta s a) = reuseD s"
  "reuseDeltaA (mark_data_delta s a) = reuseDeltaA s"
  "reuseDeltaD (mark_data_delta s a) = reuseDeltaD s"
  "firstTime (mark_data_delta s a) = firstTime s"
  "lastTime (mark_data_delta s a) = lastTime s"
  by (simp_all add: mark_data_delta_def nth_upd)

lemma touch_frame [simp]:
  "length (heap (touch s t a)) = length (heap s)"
  "cache (touch s t a) = cache s"
  "data (heap (touch s t a) ! b) = data (heap s ! b)"
  "created (heap (touch s t a) ! b) = created (heap s ! b)"
  "esize (heap (touch s t a) ! b) = esize (heap s ! b)"
  "totalA (touch s t a) = totalA s" "totalD (touch s t a) = totalD s"
  "totalReusedA (touch s t a) = totalReusedA s" "totalReusedD (touch s t a) = totalReusedD s"
  "reuseA (touch s t a) = reuseA s" "reuseD (touch s t a) = reuseD s"
  "reuseDeltaA (touch s t a) = reuseDeltaA s" "reuseDeltaD (touch s t a) = reuseDeltaD s"
  "firstTime (touch s t a) = firstTime s" "lastTime (touch s t a) = lastTime s"
  by (simp_all add: touch_def nth_upd)

lemma add_samples_delta_frame [simp]:
  "heap (add_samples_delta s t a d) = heap s"
  "cache (add_samples_delta s t a d) = cache s"
  "totalA (add_samples_delta s t a d) = totalA s" "totalD (add_samples_delta s t a d) = totalD s"
  "totalReusedA (add_samples_delta s t a d) = totalReusedA s"
  "totalReusedD (add_samples_delta s t a d) = totalReusedD s"
  "firstTime (add_samples_delta s t a d) = firstTime s"
  "lastTime (add_samples_delta s t a d) = lastTime s"
  "reuseA (add_samples_delta s t a d) = reuseA s @ [sint (t - created (heap s ! a))]"
  "reuseD (add_samples_delta s t a d) = reuseD s @ [sint (t - created (heap s ! d))]"
  "reuseDeltaA (add_samples_delta s t a d) = reuseDeltaA s @ [sint (t - lastReused (heap s ! a))]"
  "reuseDeltaD (add_samples_delta s t a d) = reuseDeltaD s @ [sint (t - lastReused (heap s ! d))]"
  by (simp_all add: add_samples_delta_def)

lemma get_branch_delta_miss:
  "cache s (f ! 2 @ ''-a'') = None \<Longrightarrow> get_branch_delta s t f = Inr s"
  by (simp add: get_branch_delta_def)

lemma get_branch_delta_hit:
  "cache s (f ! 2 @ ''-a'') = Some a \<Longrightarrow> a < length (heap s) \<Longrightarrow> data (heap s ! a) = Some d \<Longrightarrow>
   d < length (heap s) \<Longrightarrow> get_branch_delta s t f = Inr (reuse_delta s t a d)"
  by (simp add: get_branch_delta_def reuse_delta_def)

lemma get_branch_delta_Inr:
  assumes "get_branch_delta s t f = Inr s'"
  shows "cache s (f ! 2 @ ''-a'') = None \<and> s' = s \<or>
         (\<exists>a d. cache s (f ! 2 @ ''-a'') = Some a \<and> a < length (heap s) \<and>
                 data (heap s ! a) = Some d \<and> d < length (heap s) \<and>
                 s' = reuse_delta s t a d)"
  using assms by (simp add: get_branch_delta_def reuse_delta_def split: option.splits if_splits)

lemma wf_mark_action_delta: "wf s \<Longrightarrow> wf (mark_action_delta s a)"
  by (cases "lastReused (heap s ! a) = 0")
     (simp_all add: mark_action_delta_def
        wf_update [where a = a and e = "(heap s ! a)\<lparr>lastReused := created (heap s ! a)\<rparr>"])

lemma wf_mark_data_delta: "wf s \<Longrightarrow> wf (mark_data_delta s a)"
  by (cases "lastReused (heap s ! a) = 0")
     (simp_all add: mark_data_delta_def
        wf_update [where a = a and e = "(heap s ! a)\<lparr>lastReused := created (heap s ! a)\<rparr>"])

lemma wf_touch: "wf s \<Longrightarrow> wf (touch s t a)"
  by (rule wf_update [where a = a and e = "(heap s ! a)\<lparr>lastReused := t\<rparr>"])
     (simp_all add: touch_def)

lemma wf_add_samples_delta: "wf (add_samples_delta s t a d) = wf s"
  by (rule wf_same) simp_all

lemma wf_reuse_delta: "wf s \<Longrightarrow> wf (reuse_delta s t a d)"
  unfolding reuse_delta_def
  by (intro wf_touch) (simp add: wf_add_samples_delta wf_mark_data_delta wf_mark_action_delta)

lemma wf_get_branch_delta:
  assumes "wf s" "get_branch_delta s t f = Inr s'" shows "wf s'"
  using get_branch_delta_Inr [OF assms(2)] assms(1) by (auto intro: wf_reuse_delta)

lemma step_delta_empty: "Fields line = [] \<Longrightarrow> step_delta s line = Inr s"
  by (simp add: step_delta_def)

lemma step_delta_cases [consumes 1, case_names empty put get other]:
  assumes "step_delta s line = Inr s'"
  obtains "Fields line = []" "s' = s"
  | t where "length (Fields line) = 5" "Fields line ! 1 = ''put''"
      "ParseInt (Fields line ! 0) = Some t"
      "put_branch_delta (stamp s t) t (Fields line) line = Inr s'"
  | t where "3 \<le> length (Fields line)" "Fields line ! 1 = ''get'' \<or> Fields line ! 1 = ''miss''"
      "ParseInt (Fields line ! 0) = Some t"
      "get_branch_delta (stamp s t) t (Fields line) = Inr s'"
  | t where "3 \<le> length (Fields line)" "Fields line ! 1 \<noteq> ''put''"
      "Fields line ! 1 \<noteq> ''get''" "Fields line ! 1 \<noteq> ''miss''"
      "ParseInt (Fields line ! 0) = Some t" "s' = stamp s t"
  using assms
  by (simp add: step_delta_def Let_def split: if_splits option.splits)

lemma wf_step_delta:
  assumes "wf s" "step_delta s line = Inr s'" shows "wf s'"
  using assms(2)
proof (cases rule: step_delta_cases)
  case empty
  with assms(1) show ?thesis by simp
next
  case (put t)
  from wf_put_branch_delta [OF _ put(4)] assms(1) show ?thesis by (simp add: wf_stamp)
next
  case (get t)
  from wf_get_branch_delta [OF _ get(4)] assms(1) show ?thesis by (simp add: wf_stamp)
next
  case (other t)
  with assms(1) show ?thesis by (simp add: wf_stamp)
qed

lemma wf_loop_delta: "wf s \<Longrightarrow> loop_delta s ls = Inr s' \<Longrightarrow> wf s'"
proof (induction ls arbitrary: s)
  case Nil
  then show ?case by simp
next
  case (Cons l ls)
  then show ?case by (auto split: sum.splits dest: wf_step_delta)
qed

subsection \<open>What \<open>printCache\<close> prints\<close>

lemma print_at_ok: "j < length xs \<Longrightarrow> print_at mk xs j rest = (mk (days (xs ! j)) # fst rest, snd rest)"
  by (simp add: print_at_def split: prod.splits)

lemma print_at_bad: "\<not> j < length xs \<Longrightarrow> print_at mk xs j rest = ([], Some IndexOutOfRange)"
  by (simp add: print_at_def)

lemma pct_loop_unfold:
  "pct_loop xs 10 rest =
    print_at (Pct 10) xs (length xs * 10 div 100) (print_at (Pct 20) xs (length xs * 20 div 100)
    (print_at (Pct 30) xs (length xs * 30 div 100) (print_at (Pct 40) xs (length xs * 40 div 100)
    (print_at (Pct 50) xs (length xs * 50 div 100) (print_at (Pct 60) xs (length xs * 60 div 100)
    (print_at (Pct 70) xs (length xs * 70 div 100) (print_at (Pct 80) xs (length xs * 80 div 100)
    (print_at (Pct 90) xs (length xs * 90 div 100) rest))))))))"
  by (simp add: pct_loop.simps [of xs 10] pct_loop.simps [of xs 20] pct_loop.simps [of xs 30]
      pct_loop.simps [of xs 40] pct_loop.simps [of xs 50] pct_loop.simps [of xs 60]
      pct_loop.simps [of xs 70] pct_loop.simps [of xs 80] pct_loop.simps [of xs 90]
      pct_loop.simps [of xs 100])

lemma print_at_pct:
  assumes "0 < length xs" "p < q"
  shows "print_at mk xs (length xs * p div q) rest =
           (mk (days (xs ! (length xs * p div q))) # fst rest, snd rest)"
proof -
  from assms have "length xs * p < length xs * q" by simp
  then have "length xs * p div q < length xs"
    by (simp add: less_mult_imp_div_less)
  then show ?thesis by (rule print_at_ok)
qed

lemma print_at_last:
  assumes "0 < length xs"
  shows "print_at mk xs (length xs - 1) rest = (mk (days (xs ! (length xs - 1))) # fst rest, snd rest)"
  using assms by (simp add: print_at_ok)

lemma loop_rest_ok:
  assumes "xs \<noteq> []" "length ys = length xs"
  shows "pct_loop ys 10
           (print_at P95 ys (length xs * 95 div 100)
             (print_at P99 ys (length xs * 99 div 100)
               (print_at P999 ys (length xs * 999 div 1000)
                 (print_at PMax ys (length xs - 1) rest))))
         = (percentiles ys @ fst rest, snd rest)"
proof -
  from assms have n: "0 < length ys" by simp
  have less: "(10::nat) < 100" "(20::nat) < 100" "(30::nat) < 100" "(40::nat) < 100"
    "(50::nat) < 100" "(60::nat) < 100" "(70::nat) < 100" "(80::nat) < 100" "(90::nat) < 100"
    "(95::nat) < 100" "(99::nat) < 100" "(999::nat) < 1000"
    by simp_all
  show ?thesis
    unfolding pct_loop_unfold assms(2) [symmetric] percentiles_def Let_def
    by (simp only: print_at_pct [OF n less(1)] print_at_pct [OF n less(2)]
        print_at_pct [OF n less(3)] print_at_pct [OF n less(4)] print_at_pct [OF n less(5)]
        print_at_pct [OF n less(6)] print_at_pct [OF n less(7)] print_at_pct [OF n less(8)]
        print_at_pct [OF n less(9)] print_at_pct [OF n less(10)] print_at_pct [OF n less(11)]
        print_at_pct [OF n less(12)] print_at_last [OF n] fst_conv snd_conv append_Cons
        append_Nil)
qed

lemma printCache_empty: "printCache name tot tr [] = ([CacheLine name tot tr, NoReuse], None)"
  by (simp add: printCache_def)

lemma printCache_delta_empty:
  "printCache_delta name tot tr [] rd = ([CacheLine name tot tr, NoReuse], None)"
  by (simp add: printCache_delta_def)

lemma printCache_nonempty:
  assumes "ys \<noteq> []"
  shows "printCache name tot tr ys = (CacheLine name tot tr # PercentilesHead # percentiles ys, None)"
proof -
  from assms have n: "(length ys = 0) = False" by simp
  show ?thesis
    unfolding printCache_def
    by (simp only: n if_False loop_rest_ok [OF assms refl] prod.case fst_conv snd_conv
        append_Nil2)
qed

lemma printCache_delta_nonempty:
  assumes "ys \<noteq> []" "length zs = length ys"
  shows "printCache_delta name tot tr ys zs =
          (CacheLine name tot tr # PercentilesHead # percentiles ys @ DeltaHead # percentiles zs, None)"
proof -
  from assms have n: "(length ys = 0) = False" by simp
  show ?thesis
    unfolding printCache_delta_def
    by (simp only: n if_False loop_rest_ok [OF assms(1) refl] loop_rest_ok [OF assms]
        prod.case fst_conv snd_conv append_Nil2)
qed

lemma sorted_map_nth:
  assumes "sorted ys" "sorted js" "\<forall>j \<in> set js. j < length ys"
  shows "sorted (map ((!) ys) js)"
  using assms(2,3)
proof (induction js)
  case Nil
  then show ?case by simp
next
  case (Cons j js)
  then show ?case using assms(1) by (auto simp: sorted_nth_mono)
qed

lemma sorted_indices: "sorted (indices n)"
proof -
  have steps:
    "n * 10 div 100 \<le> n * 20 div 100" "n * 20 div 100 \<le> n * 30 div 100"
    "n * 30 div 100 \<le> n * 40 div 100" "n * 40 div 100 \<le> n * 50 div 100"
    "n * 50 div 100 \<le> n * 60 div 100" "n * 60 div 100 \<le> n * 70 div 100"
    "n * 70 div 100 \<le> n * 80 div 100" "n * 80 div 100 \<le> n * 90 div 100"
    "n * 90 div 100 \<le> n * 95 div 100" "n * 95 div 100 \<le> n * 99 div 100"
    "n * 99 div 100 \<le> n * 999 div 1000" "n * 999 div 1000 \<le> n - 1"
    by arith+
  show ?thesis
    unfolding indices_def by (simp only: sorted2 sorted1 steps simp_thms)
qed

lemma pct_index_less: "0 < n \<Longrightarrow> p < q \<Longrightarrow> n * p div q < (n::nat)"
  by (simp add: less_mult_imp_div_less)

lemma indices_bound:
  assumes "0 < n"
  shows "\<forall>j \<in> set (indices n). j < n"
proof -
  have b: "n * 10 div 100 < n" "n * 20 div 100 < n" "n * 30 div 100 < n" "n * 40 div 100 < n"
    "n * 50 div 100 < n" "n * 60 div 100 < n" "n * 70 div 100 < n" "n * 80 div 100 < n"
    "n * 90 div 100 < n" "n * 95 div 100 < n" "n * 99 div 100 < n" "n * 999 div 1000 < n"
    "n - 1 < n"
    using assms by (simp_all only: pct_index_less [OF assms] diff_less zero_less_one
      numeral_less_iff Num.less_num_simps simp_thms)
  show ?thesis
    unfolding indices_def by (simp only: list.set ball_simps b simp_thms)
qed

lemma numbers_percentiles:
  "numbers (percentiles ys) = map days (map ((!) ys) (indices (length ys)))"
  unfolding numbers_def percentiles_def indices_def Let_def
  by (simp only: List.map_filter_simps number.simps option.case list.map)

lemma all_numbers_percentiles: "\<forall>x \<in> set (percentiles ys). number x \<noteq> None"
  by (simp add: percentiles_def Let_def)

lemma sorted_days: "sorted zs \<Longrightarrow> sorted (map days zs)"
  by (induction zs) (auto simp: days_def divide_right_mono)

lemma sort_nonempty: "xs \<noteq> [] \<Longrightarrow> sort xs \<noteq> []"
proof
  assume "xs \<noteq> []" "sort xs = []"
  then have "length xs = 0" by (metis length_sort list.size(3))
  with \<open>xs \<noteq> []\<close> show False by simp
qed

lemma sorted_numbers_percentiles:
  assumes "sorted ys" "ys \<noteq> []"
  shows "sorted (numbers (percentiles ys))"
proof -
  from assms(2) have n: "0 < length ys" by simp
  have "sorted (map ((!) ys) (indices (length ys)))"
    by (rule sorted_map_nth [OF assms(1) sorted_indices indices_bound [OF n]])
  then show ?thesis unfolding numbers_percentiles by (rule sorted_days)
qed

lemma printCache_block: "printCache name tot tr ys = (block name tot tr ys, None)"
  by (cases "ys = []") (simp_all add: printCache_empty printCache_nonempty block_def)

lemma printCache_delta_block:
  "length us = length ys \<Longrightarrow>
   printCache_delta name tot tr ys us = (block_delta name tot tr ys us, None)"
  by (cases "ys = []")
     (simp_all add: printCache_delta_empty printCache_delta_nonempty block_delta_def)

text \<open>The runs of an output that is put together from blocks.\<close>

lemma runs_other: "number x = None \<Longrightarrow> runs (x # xs) = [] # runs xs"
  by simp

lemma runs_numbers:
  assumes "\<forall>x \<in> set ns. number x \<noteq> None" "number y = None"
  shows "runs (ns @ y # rest) = numbers ns # runs rest"
  using assms(1)
proof (induction ns)
  case Nil
  with assms(2) show ?case by (simp add: numbers_def List.map_filter_simps)
next
  case (Cons x ns)
  then obtain v where v: "number x = Some v" by auto
  from Cons have "runs (ns @ y # rest) = numbers ns # runs rest" by simp
  with v show ?case by (simp add: numbers_def List.map_filter_simps)
qed

lemma runs_block:
  assumes "number y = None"
  shows "runs (block name tot tr ys @ y # rest) =
          (if ys = [] then [] # [] # [] # runs rest
           else [] # [] # numbers (percentiles ys) # runs rest)"
  using runs_numbers [OF all_numbers_percentiles assms, of ys rest] assms
  by (simp add: block_def)

lemma runs_block_delta:
  assumes "number y = None"
  shows "runs (block_delta name tot tr ys us @ y # rest) =
          (if ys = [] then [] # [] # [] # runs rest
           else [] # [] # numbers (percentiles ys) # numbers (percentiles us) # runs rest)"
  using runs_numbers [OF all_numbers_percentiles assms, of us rest]
    runs_numbers [OF all_numbers_percentiles, of DeltaHead ys "percentiles us @ y # rest"] assms
  by (simp add: block_delta_def)

subsection \<open>Which lines stop the scan\<close>

lemma put_branch_Inr:
  assumes "put_branch s t f line = Inr s'"
  obtains sz where "ParseInt (f ! 4) = Some sz"
    "s' = put_action (snd (put_data s t (f ! 3) sz)) t (f ! 2) (fst (put_data s t (f ! 3) sz))"
  using assms by (auto simp: put_branch_def split: option.splits prod.splits)

lemma put_branch_Some:
  "ParseInt (f ! 4) = Some sz \<Longrightarrow>
   put_branch s t f line =
     Inr (put_action (snd (put_data s t (f ! 3) sz)) t (f ! 2) (fst (put_data s t (f ! 3) sz)))"
  by (simp add: put_branch_def split: prod.splits)

lemma put_branch_None: "ParseInt (f ! 4) = None \<Longrightarrow> put_branch s t f line = Inl (InvalidSize line)"
  by (simp add: put_branch_def)

lemma put_branch_delta_Some:
  "ParseInt (f ! 4) = Some sz \<Longrightarrow>
   put_branch_delta s t f line =
     Inr (put_action_delta (snd (put_data_delta s t (f ! 3) sz)) t (f ! 2)
            (fst (put_data_delta s t (f ! 3) sz)))"
  by (simp add: put_branch_delta_def split: prod.splits)

lemma put_branch_delta_None:
  "ParseInt (f ! 4) = None \<Longrightarrow> put_branch_delta s t f line = Inl (InvalidSize line)"
  by (simp add: put_branch_delta_def)

lemma get_branch_total: "wf s \<Longrightarrow> \<exists>s'. get_branch s t f = Inr s'"
  by (simp add: get_branch_wf split: option.splits)

lemma get_branch_delta_wf:
  assumes "wf s"
  shows "get_branch_delta s t f =
          (case cache s (f ! 2 @ ''-a'') of None \<Rightarrow> Inr s
           | Some a \<Rightarrow> Inr (reuse_delta s t a (the (data (heap s ! a)))))"
proof (cases "cache s (f ! 2 @ ''-a'')")
  case None
  then show ?thesis by (simp add: get_branch_delta_miss)
next
  case (Some a)
  from wf_cacheD [OF assms Some] have a: "a < length (heap s)" .
  from wf_actionD [OF assms Some] obtain d where d: "data (heap s ! a) = Some d" by auto
  from wf_refD [OF assms a d] have "d < length (heap s)" by simp
  with Some a d show ?thesis by (simp add: get_branch_delta_hit)
qed

lemma get_branch_delta_total: "wf s \<Longrightarrow> \<exists>s'. get_branch_delta s t f = Inr s'"
  by (simp add: get_branch_delta_wf split: option.splits)

lemma step_malformed:
  assumes "malformed line"
  shows "step s line = Inl (InvalidLine line) \<or> step s line = Inl (InvalidTime line) \<or>
         step s line = Inl (InvalidSize line)"
  using assms
  by (auto simp: malformed_def step_def Let_def put_branch_None split: option.splits)

lemma step_wellformed:
  assumes "wf s" "\<not> malformed line"
  shows "\<exists>s'. step s line = Inr s'"
proof (cases "Fields line = []")
  case True
  then show ?thesis by (simp add: step_empty)
next
  case False
  with assms(2) obtain t where f: "3 \<le> length (Fields line)"
      "Fields line ! 1 = ''put'' \<longrightarrow> length (Fields line) = 5 \<and> ParseInt (Fields line ! 4) \<noteq> None"
      "ParseInt (Fields line ! 0) = Some t"
    by (auto simp: malformed_def Let_def)
  have wf': "wf (stamp s t)" using assms(1) by (simp add: wf_stamp)
  from get_branch_total [OF wf'] obtain s' where "get_branch (stamp s t) t (Fields line) = Inr s'"
    by blast
  with f False show ?thesis
    by (auto simp: step_def Let_def put_branch_Some)
qed

lemma step_delta_malformed:
  assumes "malformed line"
  shows "step_delta s line = Inl (InvalidLine line) \<or> step_delta s line = Inl (InvalidTime line) \<or>
         step_delta s line = Inl (InvalidSize line)"
  using assms
  by (auto simp: malformed_def step_delta_def Let_def put_branch_delta_None split: option.splits)

lemma step_delta_wellformed:
  assumes "wf s" "\<not> malformed line"
  shows "\<exists>s'. step_delta s line = Inr s'"
proof (cases "Fields line = []")
  case True
  then show ?thesis by (simp add: step_delta_empty)
next
  case False
  with assms(2) obtain t where f: "3 \<le> length (Fields line)"
      "Fields line ! 1 = ''put'' \<longrightarrow> length (Fields line) = 5 \<and> ParseInt (Fields line ! 4) \<noteq> None"
      "ParseInt (Fields line ! 0) = Some t"
    by (auto simp: malformed_def Let_def)
  have wf': "wf (stamp s t)" using assms(1) by (simp add: wf_stamp)
  from get_branch_delta_total [OF wf'] obtain s' where
    "get_branch_delta (stamp s t) t (Fields line) = Inr s'"
    by blast
  with f False show ?thesis
    by (auto simp: step_delta_def Let_def put_branch_delta_Some)
qed

text \<open>The lines before the first malformed one are scanned; the scan stops at that one.\<close>

lemma loop_wellformed:
  assumes "wf s" "\<forall>l \<in> set ls. \<not> malformed l"
  shows "\<exists>s'. loop s ls = Inr s' \<and> wf s'"
  using assms
proof (induction ls arbitrary: s)
  case Nil
  then show ?case by simp
next
  case (Cons l ls)
  from step_wellformed [OF Cons.prems(1), of l] Cons.prems(2)
  obtain s1 where s1: "step s l = Inr s1" by auto
  from wf_step [OF Cons.prems(1) s1] have "wf s1" .
  from Cons.IH [OF this] Cons.prems(2) s1 show ?case by simp
qed

lemma loop_append:
  "loop s (xs @ ys) = (case loop s xs of Inl e \<Rightarrow> Inl e | Inr s' \<Rightarrow> loop s' ys)"
  by (induction xs arbitrary: s) (simp_all split: sum.splits)

lemma loop_delta_wellformed:
  assumes "wf s" "\<forall>l \<in> set ls. \<not> malformed l"
  shows "\<exists>s'. loop_delta s ls = Inr s' \<and> wf s'"
  using assms
proof (induction ls arbitrary: s)
  case Nil
  then show ?case by simp
next
  case (Cons l ls)
  from step_delta_wellformed [OF Cons.prems(1), of l] Cons.prems(2)
  obtain s1 where s1: "step_delta s l = Inr s1" by auto
  from wf_step_delta [OF Cons.prems(1) s1] have "wf s1" .
  from Cons.IH [OF this] Cons.prems(2) s1 show ?case by simp
qed

lemma loop_delta_append:
  "loop_delta s (xs @ ys) = (case loop_delta s xs of Inl e \<Rightarrow> Inl e | Inr s' \<Rightarrow> loop_delta s' ys)"
  by (induction xs arbitrary: s) (simp_all split: sum.splits)

lemma loop_first_malformed:
  assumes "wf s" "\<forall>l \<in> set pre. \<not> malformed l" "malformed bad"
  shows "loop s (pre @ bad # post) \<in>
           {Inl (InvalidLine bad), Inl (InvalidTime bad), Inl (InvalidSize bad)}"
proof -
  from loop_wellformed [OF assms(1,2)] obtain s1 where "loop s pre = Inr s1" by blast
  with step_malformed [OF assms(3), of s1] show ?thesis
    by (auto simp: loop_append)
qed

lemma loop_delta_first_malformed:
  assumes "wf s" "\<forall>l \<in> set pre. \<not> malformed l" "malformed bad"
  shows "loop_delta s (pre @ bad # post) \<in>
           {Inl (InvalidLine bad), Inl (InvalidTime bad), Inl (InvalidSize bad)}"
proof -
  from loop_delta_wellformed [OF assms(1,2)] obtain s1 where "loop_delta s pre = Inr s1" by blast
  with step_delta_malformed [OF assms(3), of s1] show ?thesis
    by (auto simp: loop_delta_append)
qed

subsection \<open>No pointer fault in the scan\<close>

lemma wf_actions_have_data: "wf s \<Longrightarrow> actions_have_data s"
  unfolding actions_have_data_def
proof (intro allI impI)
  fix x a assume wf: "wf s" and c: "cache s (x @ ''-a'') = Some a"
  from wf_cacheD [OF wf c] have a: "a < length (heap s)" .
  from wf_actionD [OF wf c] obtain d where d: "data (heap s ! a) = Some d" by auto
  from wf_refD [OF wf a d] a d
  show "a < length (heap s) \<and> (\<exists>d. data (heap s ! a) = Some d \<and> d < length (heap s))" by simp
qed

lemma step_no_fault: "wf s \<Longrightarrow> step s l \<noteq> Inl MemFault"
  using step_malformed [of l s] step_wellformed [of s l] by (cases "malformed l") auto

lemma step_delta_no_fault: "wf s \<Longrightarrow> step_delta s l \<noteq> Inl MemFault"
  using step_delta_malformed [of l s] step_delta_wellformed [of s l] by (cases "malformed l") auto

lemma loop_no_fault: "wf s \<Longrightarrow> loop s ls \<noteq> Inl MemFault"
proof (induction ls arbitrary: s)
  case Nil
  then show ?case by simp
next
  case (Cons l ls)
  show ?case
  proof (cases "step s l")
    case (Inl e)
    with step_no_fault [OF Cons.prems, of l] show ?thesis by simp
  next
    case (Inr s1)
    from Cons.IH [OF wf_step [OF Cons.prems Inr]] Inr show ?thesis by simp
  qed
qed

lemma loop_delta_no_fault: "wf s \<Longrightarrow> loop_delta s ls \<noteq> Inl MemFault"
proof (induction ls arbitrary: s)
  case Nil
  then show ?case by simp
next
  case (Cons l ls)
  show ?case
  proof (cases "step_delta s l")
    case (Inl e)
    with step_delta_no_fault [OF Cons.prems, of l] show ?thesis by simp
  next
    case (Inr s1)
    from Cons.IH [OF wf_step_delta [OF Cons.prems Inr]] Inr show ?thesis by simp
  qed
qed

subsection \<open>What a line leaves alone, in \<open>main.go\<close>\<close>

lemma kept_refl: "kept s s"
  by (simp add: kept_def)

lemma kept_trans: "kept s s1 \<Longrightarrow> kept s1 s2 \<Longrightarrow> kept s s2"
  unfolding kept_def by (metis (no_types, lifting) le_trans less_le_trans)

lemma kept_same_heap: "heap s' = heap s \<Longrightarrow> cache s' = cache s \<Longrightarrow> kept s s'"
  by (simp add: kept_def)

lemma kept_fields:
  assumes "length (heap s') = length (heap s)" "cache s' = cache s"
    "\<And>b. created (heap s' ! b) = created (heap s ! b)"
    "\<And>b. esize (heap s' ! b) = esize (heap s ! b)"
    "\<And>b. data (heap s' ! b) = data (heap s ! b)"
  shows "kept s s'"
  using assms by (simp add: kept_def)

lemma put_data_old [simp]:
  "a < length (heap s) \<Longrightarrow> heap (snd (put_data s t k sz)) ! a = heap s ! a"
  by (simp add: put_data_def nth_append split: option.splits)

lemma put_action_old [simp]:
  "a < length (heap s) \<Longrightarrow> heap (put_action s t k e1) ! a = heap s ! a"
  by (simp add: put_action_def nth_append split: option.splits)

lemma put_data_frame [simp]:
  "reuseA (snd (put_data s t k sz)) = reuseA s" "reuseD (snd (put_data s t k sz)) = reuseD s"
  "firstTime (snd (put_data s t k sz)) = firstTime s"
  "lastTime (snd (put_data s t k sz)) = lastTime s"
  "totalA (snd (put_data s t k sz)) = totalA s"
  "totalReusedA (snd (put_data s t k sz)) = totalReusedA s"
  "totalReusedD (snd (put_data s t k sz)) = totalReusedD s"
  "length (heap s) \<le> length (heap (snd (put_data s t k sz)))"
  by (simp_all add: put_data_def split: option.splits)

lemma put_action_frame [simp]:
  "reuseA (put_action s t k e1) = reuseA s" "reuseD (put_action s t k e1) = reuseD s"
  "firstTime (put_action s t k e1) = firstTime s"
  "lastTime (put_action s t k e1) = lastTime s"
  "totalD (put_action s t k e1) = totalD s"
  "totalReusedA (put_action s t k e1) = totalReusedA s"
  "totalReusedD (put_action s t k e1) = totalReusedD s"
  "length (heap s) \<le> length (heap (put_action s t k e1))"
  by (simp_all add: put_action_def split: option.splits)

lemma put_data_cache_old:
  "cache s k' = Some a \<Longrightarrow> cache (snd (put_data s t k sz)) k' = Some a"
  by (auto simp: put_data_def split: option.splits)

lemma put_action_cache_old:
  "cache s k' = Some a \<Longrightarrow> cache (put_action s t k e1) k' = Some a"
  by (auto simp: put_action_def split: option.splits)

lemma kept_put_data: "kept s (snd (put_data s t k sz))"
  by (simp add: kept_def put_data_cache_old)

lemma kept_put_action: "kept s (put_action s t k e1)"
  by (simp add: kept_def put_action_cache_old)

lemma kept_put_branch:
  assumes "put_branch s t f line = Inr s'" shows "kept s s'"
proof -
  from assms obtain sz where
    "s' = put_action (snd (put_data s t (f ! 3) sz)) t (f ! 2) (fst (put_data s t (f ! 3) sz))"
    by (rule put_branch_Inr)
  then show ?thesis by (simp add: kept_trans [OF kept_put_data kept_put_action])
qed

lemma kept_get_branch:
  assumes "get_branch s t f = Inr s'" shows "kept s s'"
proof -
  have "kept s (add_samples (mark_data (mark_action s a) d) t a d)" for a d
    by (rule kept_fields) simp_all
  with get_branch_Inr [OF assms] show ?thesis by (auto simp: kept_refl)
qed

lemma kept_stamp: "kept s (stamp s t)"
  by (simp add: kept_same_heap)

lemma kept_step:
  assumes "step s l = Inr s'" shows "kept s s'"
  using assms
proof (cases rule: step_cases)
  case empty
  then show ?thesis by (simp add: kept_refl)
next
  case (put t)
  from kept_trans [OF kept_stamp kept_put_branch [OF put(4)]] show ?thesis .
next
  case (get t)
  from kept_trans [OF kept_stamp kept_get_branch [OF get(4)]] show ?thesis .
next
  case (other t)
  then show ?thesis by (simp add: kept_stamp)
qed

lemma kept_loop: "loop s ls = Inr s' \<Longrightarrow> kept s s'"
proof (induction ls arbitrary: s)
  case Nil
  then show ?case by (simp add: kept_refl)
next
  case (Cons l ls)
  then show ?case by (auto split: sum.splits intro: kept_trans kept_step)
qed

text \<open>A put on a key that is already registered.\<close>

lemma put_data_existing:
  "cache s (k @ ''-d'') = Some d \<Longrightarrow> put_data s t k sz = (d, s)"
  by (simp add: put_data_def)

lemma put_action_existing:
  "cache s (k @ ''-a'') = Some a \<Longrightarrow> put_action s t k e1 = s"
  by (simp add: put_action_def)

lemma put_data_totalD_new:
  "totalD (snd (put_data s t k sz)) =
     (if cache s (k @ ''-d'') = None then totalD s + sz else totalD s)"
  by (simp add: put_data_def split: option.splits)

lemma put_branch_existing_action:
  assumes "put_branch s t f line = Inr s'" "cache s (f ! 2 @ ''-a'') = Some a"
    "a < length (heap s)"
  shows "cache s' (f ! 2 @ ''-a'') = Some a \<and> heap s' ! a = heap s ! a \<and> totalA s' = totalA s"
proof -
  from assms(1) obtain sz where
    s': "s' = put_action (snd (put_data s t (f ! 3) sz)) t (f ! 2) (fst (put_data s t (f ! 3) sz))"
    by (rule put_branch_Inr)
  have "cache (snd (put_data s t (f ! 3) sz)) (f ! 2 @ ''-a'') = Some a"
    by (rule put_data_cache_old [OF assms(2)])
  then show ?thesis
    unfolding s' using assms(3) by (simp add: put_action_existing)
qed

lemma put_branch_existing_data:
  assumes "put_branch s t f line = Inr s'" "cache s (f ! 3 @ ''-d'') = Some d"
    "d < length (heap s)"
  shows "cache s' (f ! 3 @ ''-d'') = Some d \<and> heap s' ! d = heap s ! d \<and> totalD s' = totalD s"
proof -
  from assms(1) obtain sz where
    s': "s' = put_action (snd (put_data s t (f ! 3) sz)) t (f ! 2) (fst (put_data s t (f ! 3) sz))"
    by (rule put_branch_Inr)
  show ?thesis
    unfolding s' using assms(2,3)
    by (simp add: put_data_existing put_action_cache_old)
qed

lemma put_data_registers: "cache (snd (put_data s t k sz)) (k @ ''-d'') \<noteq> None"
  by (simp add: put_data_def split: option.splits)

lemma put_action_registers: "cache (put_action s t k e1) (k @ ''-a'') \<noteq> None"
  by (simp add: put_action_def split: option.splits)

lemma put_branch_registers:
  assumes "put_branch s t f line = Inr s'"
  shows "cache s' (f ! 2 @ ''-a'') \<noteq> None \<and> cache s' (f ! 3 @ ''-d'') \<noteq> None"
proof -
  from assms(1) obtain sz where
    s': "s' = put_action (snd (put_data s t (f ! 3) sz)) t (f ! 2) (fst (put_data s t (f ! 3) sz))"
    by (rule put_branch_Inr)
  from put_data_registers [of s t "f ! 3" sz] obtain d where
    "cache (snd (put_data s t (f ! 3) sz)) (f ! 3 @ ''-d'') = Some d" by auto
  from put_action_cache_old [OF this] show ?thesis
    unfolding s' by (simp add: put_action_registers)
qed

lemma step_put:
  assumes "step s l = Inr s'" "is_put l"
  obtains t where "put_branch (stamp s t) t (Fields l) l = Inr s'"
  using assms(1)
proof (cases rule: step_cases)
  case empty
  with assms(2) show ?thesis by (simp add: is_put_def)
next
  case (put t)
  with that show ?thesis by blast
next
  case (get t)
  with assms(2) show ?thesis by (auto simp: is_put_def)
next
  case (other t)
  with assms(2) show ?thesis by (simp add: is_put_def)
qed

lemma second_put:
  assumes first: "step s0 l1 = Inr s1" "is_put l1"
    and between: "loop s1 mid = Inr s"
    and second: "step s l2 = Inr s'" "is_put l2"
    and wf: "wf s0"
  shows "(Fields l1 ! 2 = Fields l2 ! 2 \<longrightarrow>
           (\<exists>a. cache s1 (Fields l1 ! 2 @ ''-a'') = Some a \<and> a < length (heap s1) \<and>
                cache s' (Fields l2 ! 2 @ ''-a'') = Some a \<and>
                heap s' ! a = heap s ! a \<and> totalA s' = totalA s \<and>
                created (heap s' ! a) = created (heap s1 ! a) \<and>
                esize (heap s' ! a) = esize (heap s1 ! a) \<and>
                data (heap s' ! a) = data (heap s1 ! a))) \<and>
         (Fields l1 ! 3 = Fields l2 ! 3 \<longrightarrow>
           (\<exists>d. cache s1 (Fields l1 ! 3 @ ''-d'') = Some d \<and> d < length (heap s1) \<and>
                cache s' (Fields l2 ! 3 @ ''-d'') = Some d \<and>
                heap s' ! d = heap s ! d \<and> totalD s' = totalD s \<and>
                created (heap s' ! d) = created (heap s1 ! d) \<and>
                esize (heap s' ! d) = esize (heap s1 ! d) \<and>
                data (heap s' ! d) = data (heap s1 ! d)))"
proof -
  from first obtain t1 where p1: "put_branch (stamp s0 t1) t1 (Fields l1) l1 = Inr s1"
    by (rule step_put)
  from second obtain t2 where p2: "put_branch (stamp s t2) t2 (Fields l2) l2 = Inr s'"
    by (rule step_put)
  have wf1: "wf s1" by (rule wf_step [OF wf first(1)])
  have k: "kept s1 s" by (rule kept_loop [OF between])
  have k': "kept s1 (stamp s t2)" by (rule kept_trans [OF k kept_stamp])
  show ?thesis
  proof (intro conjI impI)
    assume eq: "Fields l1 ! 2 = Fields l2 ! 2"
    from put_branch_registers [OF p1] obtain a where
      a: "cache s1 (Fields l1 ! 2 @ ''-a'') = Some a" by auto
    from wf_cacheD [OF wf1 a] have a1: "a < length (heap s1)" .
    from k' a a1 have a2: "cache (stamp s t2) (Fields l2 ! 2 @ ''-a'') = Some a"
      "a < length (heap (stamp s t2))"
      by (auto simp: kept_def eq)
    from put_branch_existing_action [OF p2 a2] k a1 a
    show "\<exists>a. cache s1 (Fields l1 ! 2 @ ''-a'') = Some a \<and> a < length (heap s1) \<and>
                cache s' (Fields l2 ! 2 @ ''-a'') = Some a \<and>
                heap s' ! a = heap s ! a \<and> totalA s' = totalA s \<and>
                created (heap s' ! a) = created (heap s1 ! a) \<and>
                esize (heap s' ! a) = esize (heap s1 ! a) \<and>
                data (heap s' ! a) = data (heap s1 ! a)"
      by (auto simp: kept_def)
  next
    assume eq: "Fields l1 ! 3 = Fields l2 ! 3"
    from put_branch_registers [OF p1] obtain d where
      d: "cache s1 (Fields l1 ! 3 @ ''-d'') = Some d" by auto
    from wf_cacheD [OF wf1 d] have d1: "d < length (heap s1)" .
    from k' d d1 have d2: "cache (stamp s t2) (Fields l2 ! 3 @ ''-d'') = Some d"
      "d < length (heap (stamp s t2))"
      by (auto simp: kept_def eq)
    from put_branch_existing_data [OF p2 d2] k d1 d
    show "\<exists>d. cache s1 (Fields l1 ! 3 @ ''-d'') = Some d \<and> d < length (heap s1) \<and>
                cache s' (Fields l2 ! 3 @ ''-d'') = Some d \<and>
                heap s' ! d = heap s ! d \<and> totalD s' = totalD s \<and>
                created (heap s' ! d) = created (heap s1 ! d) \<and>
                esize (heap s' ! d) = esize (heap s1 ! d) \<and>
                data (heap s' ! d) = data (heap s1 ! d)"
      by (auto simp: kept_def)
  qed
qed

subsection \<open>What a line leaves alone, in the version with delta samples\<close>

lemma put_data_old_delta [simp]:
  "a < length (heap s) \<Longrightarrow> heap (snd (put_data_delta s t k sz)) ! a = heap s ! a"
  by (simp add: put_data_delta_def nth_append split: option.splits)

lemma put_action_old_delta [simp]:
  "a < length (heap s) \<Longrightarrow> heap (put_action_delta s t k e1) ! a = heap s ! a"
  by (simp add: put_action_delta_def nth_append split: option.splits)

lemma put_data_frame_delta [simp]:
  "reuseA (snd (put_data_delta s t k sz)) = reuseA s" "reuseD (snd (put_data_delta s t k sz)) = reuseD s"
  "firstTime (snd (put_data_delta s t k sz)) = firstTime s"
  "lastTime (snd (put_data_delta s t k sz)) = lastTime s"
  "totalA (snd (put_data_delta s t k sz)) = totalA s"
  "totalReusedA (snd (put_data_delta s t k sz)) = totalReusedA s"
  "totalReusedD (snd (put_data_delta s t k sz)) = totalReusedD s"
  "length (heap s) \<le> length (heap (snd (put_data_delta s t k sz)))"
  by (simp_all add: put_data_delta_def split: option.splits)

lemma put_action_frame_delta [simp]:
  "reuseA (put_action_delta s t k e1) = reuseA s" "reuseD (put_action_delta s t k e1) = reuseD s"
  "firstTime (put_action_delta s t k e1) = firstTime s"
  "lastTime (put_action_delta s t k e1) = lastTime s"
  "totalD (put_action_delta s t k e1) = totalD s"
  "totalReusedA (put_action_delta s t k e1) = totalReusedA s"
  "totalReusedD (put_action_delta s t k e1) = totalReusedD s"
  "length (heap s) \<le> length (heap (put_action_delta s t k e1))"
  by (simp_all add: put_action_delta_def split: option.splits)

lemma put_data_cache_old_delta:
  "cache s k' = Some a \<Longrightarrow> cache (snd (put_data_delta s t k sz)) k' = Some a"
  by (auto simp: put_data_delta_def split: option.splits)

lemma put_action_cache_old_delta:
  "cache s k' = Some a \<Longrightarrow> cache (put_action_delta s t k e1) k' = Some a"
  by (auto simp: put_action_delta_def split: option.splits)

lemma kept_put_data_delta: "kept s (snd (put_data_delta s t k sz))"
  by (simp add: kept_def put_data_cache_old_delta)

lemma kept_put_action_delta: "kept s (put_action_delta s t k e1)"
  by (simp add: kept_def put_action_cache_old_delta)

lemma kept_put_branch_delta:
  assumes "put_branch_delta s t f line = Inr s'" shows "kept s s'"
proof -
  from assms obtain sz where
    "s' = put_action_delta (snd (put_data_delta s t (f ! 3) sz)) t (f ! 2) (fst (put_data_delta s t (f ! 3) sz))"
    by (rule put_branch_delta_Inr)
  then show ?thesis by (simp add: kept_trans [OF kept_put_data_delta kept_put_action_delta])
qed

lemma reuse_delta_frame [simp]:
  "length (heap (reuse_delta s t a d)) = length (heap s)"
  "cache (reuse_delta s t a d) = cache s"
  "data (heap (reuse_delta s t a d) ! b) = data (heap s ! b)"
  "created (heap (reuse_delta s t a d) ! b) = created (heap s ! b)"
  "esize (heap (reuse_delta s t a d) ! b) = esize (heap s ! b)"
  "totalA (reuse_delta s t a d) = totalA s" "totalD (reuse_delta s t a d) = totalD s"
  "firstTime (reuse_delta s t a d) = firstTime s" "lastTime (reuse_delta s t a d) = lastTime s"
  by (simp_all add: reuse_delta_def)

lemma kept_get_branch_delta:
  assumes "get_branch_delta s t f = Inr s'" shows "kept s s'"
proof -
  have "kept s (reuse_delta s t a d)" for a d
    by (rule kept_fields) simp_all
  with get_branch_delta_Inr [OF assms] show ?thesis by (auto simp: kept_refl)
qed

lemma kept_step_delta:
  assumes "step_delta s l = Inr s'" shows "kept s s'"
  using assms
proof (cases rule: step_delta_cases)
  case empty
  then show ?thesis by (simp add: kept_refl)
next
  case (put t)
  from kept_trans [OF kept_stamp kept_put_branch_delta [OF put(4)]] show ?thesis .
next
  case (get t)
  from kept_trans [OF kept_stamp kept_get_branch_delta [OF get(4)]] show ?thesis .
next
  case (other t)
  then show ?thesis by (simp add: kept_stamp)
qed

lemma kept_loop_delta: "loop_delta s ls = Inr s' \<Longrightarrow> kept s s'"
proof (induction ls arbitrary: s)
  case Nil
  then show ?case by (simp add: kept_refl)
next
  case (Cons l ls)
  then show ?case by (auto split: sum.splits intro: kept_trans kept_step_delta)
qed

lemma put_data_existing_delta:
  "cache s (k @ ''-d'') = Some d \<Longrightarrow> put_data_delta s t k sz = (d, s)"
  by (simp add: put_data_delta_def)

lemma put_action_existing_delta:
  "cache s (k @ ''-a'') = Some a \<Longrightarrow> put_action_delta s t k e1 = s"
  by (simp add: put_action_delta_def)

lemma put_data_totalD_new_delta:
  "totalD (snd (put_data_delta s t k sz)) =
     (if cache s (k @ ''-d'') = None then totalD s + sz else totalD s)"
  by (simp add: put_data_delta_def split: option.splits)

lemma put_branch_existing_action_delta:
  assumes "put_branch_delta s t f line = Inr s'" "cache s (f ! 2 @ ''-a'') = Some a"
    "a < length (heap s)"
  shows "cache s' (f ! 2 @ ''-a'') = Some a \<and> heap s' ! a = heap s ! a \<and> totalA s' = totalA s"
proof -
  from assms(1) obtain sz where
    s': "s' = put_action_delta (snd (put_data_delta s t (f ! 3) sz)) t (f ! 2) (fst (put_data_delta s t (f ! 3) sz))"
    by (rule put_branch_delta_Inr)
  have "cache (snd (put_data_delta s t (f ! 3) sz)) (f ! 2 @ ''-a'') = Some a"
    by (rule put_data_cache_old_delta [OF assms(2)])
  then show ?thesis
    unfolding s' using assms(3) by (simp add: put_action_existing_delta)
qed

lemma put_branch_existing_data_delta:
  assumes "put_branch_delta s t f line = Inr s'" "cache s (f ! 3 @ ''-d'') = Some d"
    "d < length (heap s)"
  shows "cache s' (f ! 3 @ ''-d'') = Some d \<and> heap s' ! d = heap s ! d \<and> totalD s' = totalD s"
proof -
  from assms(1) obtain sz where
    s': "s' = put_action_delta (snd (put_data_delta s t (f ! 3) sz)) t (f ! 2) (fst (put_data_delta s t (f ! 3) sz))"
    by (rule put_branch_delta_Inr)
  show ?thesis
    unfolding s' using assms(2,3)
    by (simp add: put_data_existing_delta put_action_cache_old_delta)
qed

lemma put_data_registers_delta: "cache (snd (put_data_delta s t k sz)) (k @ ''-d'') \<noteq> None"
  by (simp add: put_data_delta_def split: option.splits)

lemma put_action_registers_delta: "cache (put_action_delta s t k e1) (k @ ''-a'') \<noteq> None"
  by (simp add: put_action_delta_def split: option.splits)

lemma put_branch_registers_delta:
  assumes "put_branch_delta s t f line = Inr s'"
  shows "cache s' (f ! 2 @ ''-a'') \<noteq> None \<and> cache s' (f ! 3 @ ''-d'') \<noteq> None"
proof -
  from assms(1) obtain sz where
    s': "s' = put_action_delta (snd (put_data_delta s t (f ! 3) sz)) t (f ! 2) (fst (put_data_delta s t (f ! 3) sz))"
    by (rule put_branch_delta_Inr)
  from put_data_registers_delta [of s t "f ! 3" sz] obtain d where
    "cache (snd (put_data_delta s t (f ! 3) sz)) (f ! 3 @ ''-d'') = Some d" by auto
  from put_action_cache_old_delta [OF this] show ?thesis
    unfolding s' by (simp add: put_action_registers_delta)
qed

lemma step_put_delta:
  assumes "step_delta s l = Inr s'" "is_put l"
  obtains t where "put_branch_delta (stamp s t) t (Fields l) l = Inr s'"
  using assms(1)
proof (cases rule: step_delta_cases)
  case empty
  with assms(2) show ?thesis by (simp add: is_put_def)
next
  case (put t)
  with that show ?thesis by blast
next
  case (get t)
  with assms(2) show ?thesis by (auto simp: is_put_def)
next
  case (other t)
  with assms(2) show ?thesis by (simp add: is_put_def)
qed

lemma second_put_delta:
  assumes first: "step_delta s0 l1 = Inr s1" "is_put l1"
    and between: "loop_delta s1 mid = Inr s"
    and second: "step_delta s l2 = Inr s'" "is_put l2"
    and wf: "wf s0"
  shows "(Fields l1 ! 2 = Fields l2 ! 2 \<longrightarrow>
           (\<exists>a. cache s1 (Fields l1 ! 2 @ ''-a'') = Some a \<and> a < length (heap s1) \<and>
                cache s' (Fields l2 ! 2 @ ''-a'') = Some a \<and>
                heap s' ! a = heap s ! a \<and> totalA s' = totalA s \<and>
                created (heap s' ! a) = created (heap s1 ! a) \<and>
                esize (heap s' ! a) = esize (heap s1 ! a) \<and>
                data (heap s' ! a) = data (heap s1 ! a))) \<and>
         (Fields l1 ! 3 = Fields l2 ! 3 \<longrightarrow>
           (\<exists>d. cache s1 (Fields l1 ! 3 @ ''-d'') = Some d \<and> d < length (heap s1) \<and>
                cache s' (Fields l2 ! 3 @ ''-d'') = Some d \<and>
                heap s' ! d = heap s ! d \<and> totalD s' = totalD s \<and>
                created (heap s' ! d) = created (heap s1 ! d) \<and>
                esize (heap s' ! d) = esize (heap s1 ! d) \<and>
                data (heap s' ! d) = data (heap s1 ! d)))"
proof -
  from first obtain t1 where p1: "put_branch_delta (stamp s0 t1) t1 (Fields l1) l1 = Inr s1"
    by (rule step_put_delta)
  from second obtain t2 where p2: "put_branch_delta (stamp s t2) t2 (Fields l2) l2 = Inr s'"
    by (rule step_put_delta)
  have wf1: "wf s1" by (rule wf_step_delta [OF wf first(1)])
  have k: "kept s1 s" by (rule kept_loop_delta [OF between])
  have k': "kept s1 (stamp s t2)" by (rule kept_trans [OF k kept_stamp])
  show ?thesis
  proof (intro conjI impI)
    assume eq: "Fields l1 ! 2 = Fields l2 ! 2"
    from put_branch_registers_delta [OF p1] obtain a where
      a: "cache s1 (Fields l1 ! 2 @ ''-a'') = Some a" by auto
    from wf_cacheD [OF wf1 a] have a1: "a < length (heap s1)" .
    from k' a a1 have a2: "cache (stamp s t2) (Fields l2 ! 2 @ ''-a'') = Some a"
      "a < length (heap (stamp s t2))"
      by (auto simp: kept_def eq)
    from put_branch_existing_action_delta [OF p2 a2] k a1 a
    show "\<exists>a. cache s1 (Fields l1 ! 2 @ ''-a'') = Some a \<and> a < length (heap s1) \<and>
                cache s' (Fields l2 ! 2 @ ''-a'') = Some a \<and>
                heap s' ! a = heap s ! a \<and> totalA s' = totalA s \<and>
                created (heap s' ! a) = created (heap s1 ! a) \<and>
                esize (heap s' ! a) = esize (heap s1 ! a) \<and>
                data (heap s' ! a) = data (heap s1 ! a)"
      by (auto simp: kept_def)
  next
    assume eq: "Fields l1 ! 3 = Fields l2 ! 3"
    from put_branch_registers_delta [OF p1] obtain d where
      d: "cache s1 (Fields l1 ! 3 @ ''-d'') = Some d" by auto
    from wf_cacheD [OF wf1 d] have d1: "d < length (heap s1)" .
    from k' d d1 have d2: "cache (stamp s t2) (Fields l2 ! 3 @ ''-d'') = Some d"
      "d < length (heap (stamp s t2))"
      by (auto simp: kept_def eq)
    from put_branch_existing_data_delta [OF p2 d2] k d1 d
    show "\<exists>d. cache s1 (Fields l1 ! 3 @ ''-d'') = Some d \<and> d < length (heap s1) \<and>
                cache s' (Fields l2 ! 3 @ ''-d'') = Some d \<and>
                heap s' ! d = heap s ! d \<and> totalD s' = totalD s \<and>
                created (heap s' ! d) = created (heap s1 ! d) \<and>
                esize (heap s' ! d) = esize (heap s1 ! d) \<and>
                data (heap s' ! d) = data (heap s1 ! d)"
      by (auto simp: kept_def)
  qed
qed

subsection \<open>The sample sequences grow together\<close>

lemma balanced_step:
  assumes "balanced s" "step s l = Inr s'" shows "balanced s'"
  using assms(2)
proof (cases rule: step_cases)
  case empty
  with assms(1) show ?thesis by simp
next
  case (put t)
  from put(4) obtain sz where
    "s' = put_action (snd (put_data (stamp s t) t (Fields l ! 3) sz)) t (Fields l ! 2)
            (fst (put_data (stamp s t) t (Fields l ! 3) sz))"
    by (rule put_branch_Inr)
  with assms(1) show ?thesis by (simp add: balanced_def)
next
  case (get t)
  from get_branch_Inr [OF get(4)] assms(1) show ?thesis by (auto simp: balanced_def)
next
  case (other t)
  with assms(1) show ?thesis by (simp add: balanced_def)
qed

lemma balanced_loop: "balanced s \<Longrightarrow> loop s ls = Inr s' \<Longrightarrow> balanced s'"
proof (induction ls arbitrary: s)
  case Nil
  then show ?case by simp
next
  case (Cons l ls)
  then show ?case by (auto split: sum.splits dest: balanced_step)
qed

lemma stamp_frame_delta [simp]:
  "reuseDeltaA (stamp s t) = reuseDeltaA s" "reuseDeltaD (stamp s t) = reuseDeltaD s"
  by (simp_all add: stamp_def)

lemma put_delta_frame [simp]:
  "reuseDeltaA (snd (put_data_delta s t k sz)) = reuseDeltaA s"
  "reuseDeltaD (snd (put_data_delta s t k sz)) = reuseDeltaD s"
  "reuseDeltaA (put_action_delta s t k e1) = reuseDeltaA s"
  "reuseDeltaD (put_action_delta s t k e1) = reuseDeltaD s"
  by (simp_all add: put_data_delta_def put_action_delta_def split: option.splits)

lemma reuse_delta_samples [simp]:
  "length (reuseA (reuse_delta s t a d)) = Suc (length (reuseA s))"
  "length (reuseD (reuse_delta s t a d)) = Suc (length (reuseD s))"
  "length (reuseDeltaA (reuse_delta s t a d)) = Suc (length (reuseDeltaA s))"
  "length (reuseDeltaD (reuse_delta s t a d)) = Suc (length (reuseDeltaD s))"
  by (simp_all add: reuse_delta_def)

lemma balanced_step_delta:
  assumes "balanced_delta s" "step_delta s l = Inr s'" shows "balanced_delta s'"
  using assms(2)
proof (cases rule: step_delta_cases)
  case empty
  with assms(1) show ?thesis by simp
next
  case (put t)
  from put(4) obtain sz where
    "s' = put_action_delta (snd (put_data_delta (stamp s t) t (Fields l ! 3) sz)) t (Fields l ! 2)
            (fst (put_data_delta (stamp s t) t (Fields l ! 3) sz))"
    by (rule put_branch_delta_Inr)
  with assms(1) show ?thesis by (simp add: balanced_delta_def)
next
  case (get t)
  from get_branch_delta_Inr [OF get(4)] assms(1) show ?thesis by (auto simp: balanced_delta_def)
next
  case (other t)
  with assms(1) show ?thesis by (simp add: balanced_delta_def)
qed

lemma balanced_loop_delta: "balanced_delta s \<Longrightarrow> loop_delta s ls = Inr s' \<Longrightarrow> balanced_delta s'"
proof (induction ls arbitrary: s)
  case Nil
  then show ?case by simp
next
  case (Cons l ls)
  then show ?case by (auto split: sum.splits dest: balanced_step_delta)
qed

lemma printCache_delta_no_panic:
  assumes "length zs = length ys"
  shows "snd (printCache_delta name tot tr ys zs) = None"
proof (cases "ys = []")
  case True
  then show ?thesis by (simp add: printCache_delta_empty)
next
  case False
  from printCache_delta_nonempty [OF False assms] show ?thesis by simp
qed

lemma printCache_no_panic: "snd (printCache name tot tr ys) = None"
  by (cases "ys = []") (simp_all add: printCache_empty printCache_nonempty)

lemma and_then_no_panic:
  "snd a = None \<Longrightarrow> snd b = None \<Longrightarrow> snd (and_then a b) = None"
  by (cases a; cases b) (simp add: and_then_def)

lemma report_no_panic: "snd (report s) = None"
proof -
  have "snd (and_then ([Banner, Fence, CacheAge (days (sint (lastTime s - firstTime s)))], None)
          (and_then (printCache ''action'' (totalA s) (totalReusedA s) (sort (reuseA s)))
                    (printCache ''data'' (totalD s) (totalReusedD s) (sort (reuseD s))))) = None"
    by (intro and_then_no_panic printCache_no_panic) simp
  then show ?thesis by (simp add: report_def Let_def split_beta)
qed

lemma report_delta_no_panic:
  assumes "balanced_delta s"
  shows "snd (report_delta s) = None"
proof -
  from assms have a: "length (sort (reuseDeltaA s)) = length (sort (reuseA s))"
    and d: "length (sort (reuseDeltaD s)) = length (sort (reuseD s))"
    by (simp_all add: balanced_delta_def)
  have "snd (and_then ([Banner, Fence, CacheAge (days (sint (lastTime s - firstTime s)))], None)
          (and_then
            (printCache_delta ''action'' (totalA s) (totalReusedA s) (sort (reuseA s))
               (sort (reuseDeltaA s)))
            (printCache_delta ''data'' (totalD s) (totalReusedD s) (sort (reuseD s))
               (sort (reuseDeltaD s))))) = None"
    by (intro and_then_no_panic printCache_delta_no_panic a d) simp
  then show ?thesis by (simp add: report_delta_def Let_def split_beta)
qed

subsection \<open>What the report prints\<close>

lemma and_then_ok: "and_then (xs, None) (ys, r) = (xs @ ys, r)"
  by (simp add: and_then_def)

lemma report_eq:
  "report s =
    ([Banner, Fence, CacheAge (days (sint (lastTime s - firstTime s)))]
       @ block ''action'' (totalA s) (totalReusedA s) (sort (reuseA s))
       @ block ''data'' (totalD s) (totalReusedD s) (sort (reuseD s)) @ [Fence], None)"
  by (simp add: report_def Let_def printCache_block and_then_ok)

lemma report_delta_eq:
  assumes "balanced_delta s"
  shows "report_delta s =
    ([Banner, Fence, CacheAge (days (sint (lastTime s - firstTime s)))]
       @ block_delta ''action'' (totalA s) (totalReusedA s) (sort (reuseA s))
           (sort (reuseDeltaA s))
       @ block_delta ''data'' (totalD s) (totalReusedD s) (sort (reuseD s))
           (sort (reuseDeltaD s)) @ [Fence], None)"
proof -
  from assms have a: "length (sort (reuseDeltaA s)) = length (sort (reuseA s))"
    and d: "length (sort (reuseDeltaD s)) = length (sort (reuseD s))"
    by (auto simp: balanced_delta_def)
  show ?thesis
    by (simp add: report_delta_def Let_def printCache_delta_block [OF a]
          printCache_delta_block [OF d] and_then_ok)
qed

lemma main_report: "scan file = Inr s \<Longrightarrow> main file = report s"
  by (simp add: main_def)

lemma main_delta_report: "scan_delta file = Inr s \<Longrightarrow> main_delta file = report_delta s"
  by (simp add: main_delta_def)

lemma scan_delta_balanced:
  assumes "scan_delta file = Inr s" shows "balanced_delta s"
proof -
  have "balanced_delta init_delta" by (simp add: balanced_delta_def init_delta_def)
  from balanced_loop_delta [OF this] assms show ?thesis by (simp add: scan_delta_def)
qed

text \<open>The percentile tables of a report are its runs, and each of them is sorted.\<close>

lemma block_Cons:
  "block name tot tr ys @ zs = CacheLine name tot tr # tl (block name tot tr ys @ zs)"
  by (simp add: block_def)

lemma block_delta_Cons:
  "block_delta name tot tr ys us @ zs =
     CacheLine name tot tr # tl (block_delta name tot tr ys us @ zs)"
  by (simp add: block_delta_def)

lemma sorted_runs_block:
  assumes "number y = None" "sorted ys" "\<forall>ns \<in> set (runs (y # rest)). sorted ns"
  shows "\<forall>ns \<in> set (runs (block name tot tr ys @ y # rest)). sorted ns"
  using assms sorted_numbers_percentiles [OF assms(2)]
  by (simp add: runs_block)

lemma sorted_runs_block_delta:
  assumes "number y = None" "sorted ys" "sorted us" "length us = length ys"
    "\<forall>ns \<in> set (runs (y # rest)). sorted ns"
  shows "\<forall>ns \<in> set (runs (block_delta name tot tr ys us @ y # rest)). sorted ns"
proof (cases "ys = []")
  case True
  with assms show ?thesis by (simp add: runs_block_delta)
next
  case False
  with assms(4) have "us \<noteq> []" by auto
  with assms False sorted_numbers_percentiles [OF assms(2)]
    sorted_numbers_percentiles [OF assms(3)]
  show ?thesis by (simp add: runs_block_delta)
qed

lemma sorted_runs_report: "\<forall>ns \<in> set (runs (fst (report s))). sorted ns"
proof -
  let ?A = "block ''action'' (totalA s) (totalReusedA s) (sort (reuseA s))"
  let ?D = "block ''data'' (totalD s) (totalReusedD s) (sort (reuseD s))"
  have d: "\<forall>ns \<in> set (runs (?D @ Fence # [])). sorted ns"
    by (rule sorted_runs_block) simp_all
  have "\<forall>ns \<in> set (runs (?A @ CacheLine ''data'' (totalD s) (totalReusedD s)
                                 # tl (?D @ Fence # []))). sorted ns"
    by (rule sorted_runs_block) (use d block_Cons [of "''data''" _ _ _ "[Fence]"] in simp_all)
  then have "\<forall>ns \<in> set (runs (?A @ ?D @ [Fence])). sorted ns"
    using block_Cons [of "''data''" "totalD s" "totalReusedD s" "sort (reuseD s)" "[Fence]"]
    by simp
  then show ?thesis by (simp add: report_eq)
qed

lemma sorted_runs_report_delta:
  assumes "balanced_delta s"
  shows "\<forall>ns \<in> set (runs (fst (report_delta s))). sorted ns"
proof -
  let ?A = "block_delta ''action'' (totalA s) (totalReusedA s) (sort (reuseA s))
              (sort (reuseDeltaA s))"
  let ?D = "block_delta ''data'' (totalD s) (totalReusedD s) (sort (reuseD s))
              (sort (reuseDeltaD s))"
  from assms have a: "length (sort (reuseDeltaA s)) = length (sort (reuseA s))"
    and dl: "length (sort (reuseDeltaD s)) = length (sort (reuseD s))"
    by (auto simp: balanced_delta_def)
  have d: "\<forall>ns \<in> set (runs (?D @ Fence # [])). sorted ns"
    by (rule sorted_runs_block_delta) (use dl in simp_all)
  have "\<forall>ns \<in> set (runs (?A @ CacheLine ''data'' (totalD s) (totalReusedD s)
                                 # tl (?D @ Fence # []))). sorted ns"
    by (rule sorted_runs_block_delta)
       (use d a block_delta_Cons [of "''data''" _ _ _ _ "[Fence]"] in simp_all)
  then have "\<forall>ns \<in> set (runs (?A @ ?D @ [Fence])). sorted ns"
    using block_delta_Cons [of "''data''" "totalD s" "totalReusedD s" "sort (reuseD s)"
        "sort (reuseDeltaD s)" "[Fence]"]
    by simp
  then show ?thesis by (simp add: report_delta_eq [OF assms])
qed

subsection \<open>\<open>firstTime\<close> and \<open>lastTime\<close>\<close>

lemma stamps_Cons:
  "stamps (l # ls) = (if Fields l = [] then stamps ls else ParseInt (Fields l ! 0) # stamps ls)"
  by (simp add: stamps_def)

lemma stamps_Nil [simp]: "stamps [] = []"
  by (simp add: stamps_def)

lemma put_branch_times:
  assumes "put_branch s t f line = Inr s'"
  shows "firstTime s' = firstTime s \<and> lastTime s' = lastTime s"
proof -
  from assms obtain sz where
    "s' = put_action (snd (put_data s t (f ! 3) sz)) t (f ! 2) (fst (put_data s t (f ! 3) sz))"
    by (rule put_branch_Inr)
  then show ?thesis by simp
qed

lemma get_branch_times:
  assumes "get_branch s t f = Inr s'"
  shows "firstTime s' = firstTime s \<and> lastTime s' = lastTime s"
  using get_branch_Inr [OF assms] by auto

lemma step_times:
  assumes "step s l = Inr s'" "Fields l \<noteq> []"
  shows "\<exists>t. ParseInt (Fields l ! 0) = Some t \<and> lastTime s' = t \<and>
             firstTime s' = (if firstTime s = 0 then t else firstTime s)"
  using assms(1)
proof (cases rule: step_cases)
  case empty
  with assms(2) show ?thesis by simp
next
  case (put t)
  with put_branch_times [OF put(4)] show ?thesis by simp
next
  case (get t)
  with get_branch_times [OF get(4)] show ?thesis by simp
next
  case (other t)
  then show ?thesis by simp
qed

lemma step_blank: "step s l = Inr s' \<Longrightarrow> Fields l = [] \<Longrightarrow> s' = s"
  by (simp add: step_empty)

lemma loop_blank: "loop s ls = Inr s' \<Longrightarrow> stamps ls = [] \<Longrightarrow> s' = s"
proof (induction ls arbitrary: s)
  case Nil
  then show ?case by simp
next
  case (Cons l ls)
  then show ?case
    by (auto simp: stamps_Cons step_empty split: sum.splits if_splits)
qed

lemma loop_lastTime:
  "loop s ls = Inr s' \<Longrightarrow> stamps ls \<noteq> [] \<Longrightarrow> Some (lastTime s') = last (stamps ls)"
proof (induction ls arbitrary: s)
  case Nil
  then show ?case by simp
next
  case (Cons l ls)
  from Cons.prems(1) obtain s1 where s1: "step s l = Inr s1" "loop s1 ls = Inr s'"
    by (auto split: sum.splits)
  show ?case
  proof (cases "Fields l = []")
    case True
    with s1 Cons show ?thesis by (simp add: stamps_Cons step_empty)
  next
    case False
    from step_times [OF s1(1) False] obtain t where
      t: "ParseInt (Fields l ! 0) = Some t" "lastTime s1 = t" by blast
    show ?thesis
    proof (cases "stamps ls = []")
      case True
      from loop_blank [OF s1(2) True] t False True show ?thesis by (simp add: stamps_Cons)
    next
      case nonempty: False
      from Cons.IH [OF s1(2) nonempty] False nonempty show ?thesis by (simp add: stamps_Cons)
    qed
  qed
qed

lemma step_firstTime_set:
  assumes "step s l = Inr s'" "firstTime s \<noteq> 0" shows "firstTime s' = firstTime s"
proof (cases "Fields l = []")
  case True
  with assms show ?thesis by (simp add: step_empty)
next
  case False
  from step_times [OF assms(1) False] assms(2) show ?thesis by auto
qed

lemma loop_firstTime_set:
  "loop s ls = Inr s' \<Longrightarrow> firstTime s \<noteq> 0 \<Longrightarrow> firstTime s' = firstTime s"
proof (induction ls arbitrary: s)
  case Nil
  then show ?case by simp
next
  case (Cons l ls)
  from Cons.prems(1) obtain s1 where s1: "step s l = Inr s1" "loop s1 ls = Inr s'"
    by (auto split: sum.splits)
  from step_firstTime_set [OF s1(1) Cons.prems(2)] Cons.IH [OF s1(2)] Cons.prems(2)
  show ?case by simp
qed

lemma loop_firstTime:
  "loop s ls = Inr s' \<Longrightarrow> firstTime s = 0 \<Longrightarrow> stamps ls \<noteq> [] \<Longrightarrow> hd (stamps ls) \<noteq> Some 0 \<Longrightarrow>
   Some (firstTime s') = hd (stamps ls)"
proof (induction ls arbitrary: s)
  case Nil
  then show ?case by simp
next
  case (Cons l ls)
  from Cons.prems(1) obtain s1 where s1: "step s l = Inr s1" "loop s1 ls = Inr s'"
    by (auto split: sum.splits)
  show ?case
  proof (cases "Fields l = []")
    case True
    with s1 Cons show ?thesis by (simp add: stamps_Cons step_empty)
  next
    case False
    from step_times [OF s1(1) False] Cons.prems(2) obtain t where
      t: "ParseInt (Fields l ! 0) = Some t" "firstTime s1 = t" by auto
    with Cons.prems(4) False have "firstTime s1 \<noteq> 0" by (simp add: stamps_Cons)
    from loop_firstTime_set [OF s1(2) this] t False show ?thesis by (simp add: stamps_Cons)
  qed
qed

text \<open>With a first time of 0 the next non-empty line sets \<open>firstTime\<close> again.\<close>

lemma loop_firstTime_exact:
  "loop s ls = Inr s' \<Longrightarrow> firstTime s = 0 \<Longrightarrow>
   Some (firstTime s') = (case find (\<lambda>t. t \<noteq> Some 0) (stamps ls) of None \<Rightarrow> Some 0 | Some t \<Rightarrow> t)"
proof (induction ls arbitrary: s)
  case Nil
  then show ?case by simp
next
  case (Cons l ls)
  from Cons.prems(1) obtain s1 where s1: "step s l = Inr s1" "loop s1 ls = Inr s'"
    by (auto split: sum.splits)
  show ?case
  proof (cases "Fields l = []")
    case True
    with s1 Cons show ?thesis by (simp add: stamps_Cons step_empty)
  next
    case False
    from step_times [OF s1(1) False] Cons.prems(2) obtain t where
      t: "ParseInt (Fields l ! 0) = Some t" "firstTime s1 = t" by auto
    show ?thesis
    proof (cases "t = 0")
      case True
      with Cons.IH [OF s1(2)] t False show ?thesis by (simp add: stamps_Cons)
    next
      case nonzero: False
      with t have "firstTime s1 \<noteq> 0" by simp
      from loop_firstTime_set [OF s1(2) this] t False nonzero show ?thesis
        by (simp add: stamps_Cons)
    qed
  qed
qed

lemma put_branch_times_delta:
  assumes "put_branch_delta s t f line = Inr s'"
  shows "firstTime s' = firstTime s \<and> lastTime s' = lastTime s"
proof -
  from assms obtain sz where
    "s' = put_action_delta (snd (put_data_delta s t (f ! 3) sz)) t (f ! 2) (fst (put_data_delta s t (f ! 3) sz))"
    by (rule put_branch_delta_Inr)
  then show ?thesis by simp
qed

lemma get_branch_times_delta:
  assumes "get_branch_delta s t f = Inr s'"
  shows "firstTime s' = firstTime s \<and> lastTime s' = lastTime s"
  using get_branch_delta_Inr [OF assms] by auto

lemma step_times_delta:
  assumes "step_delta s l = Inr s'" "Fields l \<noteq> []"
  shows "\<exists>t. ParseInt (Fields l ! 0) = Some t \<and> lastTime s' = t \<and>
             firstTime s' = (if firstTime s = 0 then t else firstTime s)"
  using assms(1)
proof (cases rule: step_delta_cases)
  case empty
  with assms(2) show ?thesis by simp
next
  case (put t)
  with put_branch_times_delta [OF put(4)] show ?thesis by simp
next
  case (get t)
  with get_branch_times_delta [OF get(4)] show ?thesis by simp
next
  case (other t)
  then show ?thesis by simp
qed

lemma step_blank_delta: "step_delta s l = Inr s' \<Longrightarrow> Fields l = [] \<Longrightarrow> s' = s"
  by (simp add: step_delta_empty)

lemma loop_blank_delta: "loop_delta s ls = Inr s' \<Longrightarrow> stamps ls = [] \<Longrightarrow> s' = s"
proof (induction ls arbitrary: s)
  case Nil
  then show ?case by simp
next
  case (Cons l ls)
  then show ?case
    by (auto simp: stamps_Cons step_delta_empty split: sum.splits if_splits)
qed

lemma loop_lastTime_delta:
  "loop_delta s ls = Inr s' \<Longrightarrow> stamps ls \<noteq> [] \<Longrightarrow> Some (lastTime s') = last (stamps ls)"
proof (induction ls arbitrary: s)
  case Nil
  then show ?case by simp
next
  case (Cons l ls)
  from Cons.prems(1) obtain s1 where s1: "step_delta s l = Inr s1" "loop_delta s1 ls = Inr s'"
    by (auto split: sum.splits)
  show ?case
  proof (cases "Fields l = []")
    case True
    with s1 Cons show ?thesis by (simp add: stamps_Cons step_delta_empty)
  next
    case False
    from step_times_delta [OF s1(1) False] obtain t where
      t: "ParseInt (Fields l ! 0) = Some t" "lastTime s1 = t" by blast
    show ?thesis
    proof (cases "stamps ls = []")
      case True
      from loop_blank_delta [OF s1(2) True] t False True show ?thesis by (simp add: stamps_Cons)
    next
      case nonempty: False
      from Cons.IH [OF s1(2) nonempty] False nonempty show ?thesis by (simp add: stamps_Cons)
    qed
  qed
qed

lemma step_firstTime_set_delta:
  assumes "step_delta s l = Inr s'" "firstTime s \<noteq> 0" shows "firstTime s' = firstTime s"
proof (cases "Fields l = []")
  case True
  with assms show ?thesis by (simp add: step_delta_empty)
next
  case False
  from step_times_delta [OF assms(1) False] assms(2) show ?thesis by auto
qed

lemma loop_firstTime_set_delta:
  "loop_delta s ls = Inr s' \<Longrightarrow> firstTime s \<noteq> 0 \<Longrightarrow> firstTime s' = firstTime s"
proof (induction ls arbitrary: s)
  case Nil
  then show ?case by simp
next
  case (Cons l ls)
  from Cons.prems(1) obtain s1 where s1: "step_delta s l = Inr s1" "loop_delta s1 ls = Inr s'"
    by (auto split: sum.splits)
  from step_firstTime_set_delta [OF s1(1) Cons.prems(2)] Cons.IH [OF s1(2)] Cons.prems(2)
  show ?case by simp
qed

lemma loop_firstTime_delta:
  "loop_delta s ls = Inr s' \<Longrightarrow> firstTime s = 0 \<Longrightarrow> stamps ls \<noteq> [] \<Longrightarrow> hd (stamps ls) \<noteq> Some 0 \<Longrightarrow>
   Some (firstTime s') = hd (stamps ls)"
proof (induction ls arbitrary: s)
  case Nil
  then show ?case by simp
next
  case (Cons l ls)
  from Cons.prems(1) obtain s1 where s1: "step_delta s l = Inr s1" "loop_delta s1 ls = Inr s'"
    by (auto split: sum.splits)
  show ?case
  proof (cases "Fields l = []")
    case True
    with s1 Cons show ?thesis by (simp add: stamps_Cons step_delta_empty)
  next
    case False
    from step_times_delta [OF s1(1) False] Cons.prems(2) obtain t where
      t: "ParseInt (Fields l ! 0) = Some t" "firstTime s1 = t" by auto
    with Cons.prems(4) False have "firstTime s1 \<noteq> 0" by (simp add: stamps_Cons)
    from loop_firstTime_set_delta [OF s1(2) this] t False show ?thesis by (simp add: stamps_Cons)
  qed
qed

lemma loop_firstTime_exact_delta:
  "loop_delta s ls = Inr s' \<Longrightarrow> firstTime s = 0 \<Longrightarrow>
   Some (firstTime s') = (case find (\<lambda>t. t \<noteq> Some 0) (stamps ls) of None \<Rightarrow> Some 0 | Some t \<Rightarrow> t)"
proof (induction ls arbitrary: s)
  case Nil
  then show ?case by simp
next
  case (Cons l ls)
  from Cons.prems(1) obtain s1 where s1: "step_delta s l = Inr s1" "loop_delta s1 ls = Inr s'"
    by (auto split: sum.splits)
  show ?case
  proof (cases "Fields l = []")
    case True
    with s1 Cons show ?thesis by (simp add: stamps_Cons step_delta_empty)
  next
    case False
    from step_times_delta [OF s1(1) False] Cons.prems(2) obtain t where
      t: "ParseInt (Fields l ! 0) = Some t" "firstTime s1 = t" by auto
    show ?thesis
    proof (cases "t = 0")
      case True
      with Cons.IH [OF s1(2)] t False show ?thesis by (simp add: stamps_Cons)
    next
      case nonzero: False
      with t have "firstTime s1 \<noteq> 0" by simp
      from loop_firstTime_set_delta [OF s1(2) this] t False nonzero show ?thesis
        by (simp add: stamps_Cons)
    qed
  qed
qed

subsection \<open>The two versions side by side\<close>

lemma simD:
  assumes "sim s sd"
  shows "totalA s = totalA sd" "totalReusedA s = totalReusedA sd" "totalD s = totalD sd"
    "totalReusedD s = totalReusedD sd" "reuseA s = reuseA sd" "reuseD s = reuseD sd"
    "firstTime s = firstTime sd" "lastTime s = lastTime sd" "cache s = cache sd"
    "length (heap s) = length (heap sd)" "list_all2 entry_sim (heap s) (heap sd)"
  using assms by (auto simp: sim_def summary_def dest: list_all2_lengthD)

lemma sim_nth:
  assumes "sim s sd" "a < length (heap s)"
  shows "created (heap s ! a) = created (heap sd ! a)" "esize (heap s ! a) = esize (heap sd ! a)"
    "data (heap s ! a) = data (heap sd ! a)"
    "reused (heap s ! a) \<longleftrightarrow> lastReused (heap sd ! a) \<noteq> 0"
  using list_all2_nthD [OF simD(11) [OF assms(1)] assms(2)] by (simp_all add: entry_sim_def)

lemma simI:
  assumes "totalA s = totalA sd" "totalReusedA s = totalReusedA sd" "totalD s = totalD sd"
    "totalReusedD s = totalReusedD sd" "reuseA s = reuseA sd" "reuseD s = reuseD sd"
    "firstTime s = firstTime sd" "lastTime s = lastTime sd" "cache s = cache sd"
    "list_all2 entry_sim (heap s) (heap sd)"
  shows "sim s sd"
  using assms by (simp add: sim_def summary_def)

lemma sim_init: "sim init init_delta"
  by (simp add: sim_def summary_def init_def init_delta_def)

lemma sim_stamp: "sim s sd \<Longrightarrow> sim (stamp s t) (stamp sd t)"
  by (rule simI) (simp_all add: simD)

lemma sim_put_data:
  assumes "sim s sd"
  shows "fst (put_data s t k sz) = fst (put_data_delta sd t k sz) \<and>
         sim (snd (put_data s t k sz)) (snd (put_data_delta sd t k sz))"
proof (cases "cache s (k @ ''-d'')")
  case None
  then have n: "cache sd (k @ ''-d'') = None" using simD(9) [OF assms] by simp
  have "entry_sim \<lparr>created = t, esize = sz, reused = False, data = None\<rparr>
          \<lparr>created = t, esize = sz, reused = False, data = None, lastReused = 0\<rparr>"
    by (simp add: entry_sim_def)
  then have "list_all2 entry_sim
               (heap s @ [\<lparr>created = t, esize = sz, reused = False, data = None\<rparr>])
               (heap sd @ [\<lparr>created = t, esize = sz, reused = False, data = None, lastReused = 0\<rparr>])"
    by (intro list_all2_appendI simD(11) [OF assms]) simp
  then have "sim (snd (put_data s t k sz)) (snd (put_data_delta sd t k sz))"
    by (intro simI) (simp_all add: put_data_def put_data_delta_def None n simD [OF assms])
  then show ?thesis by (simp add: put_data_def put_data_delta_def None n simD(10) [OF assms])
next
  case (Some a)
  then have n: "cache sd (k @ ''-d'') = Some a" using simD(9) [OF assms] by simp
  with Some assms show ?thesis by (simp add: put_data_def put_data_delta_def)
qed

lemma sim_put_action:
  assumes "sim s sd"
  shows "sim (put_action s t k e1) (put_action_delta sd t k e1)"
proof (cases "cache s (k @ ''-a'')")
  case None
  then have n: "cache sd (k @ ''-a'') = None" using simD(9) [OF assms] by simp
  have "entry_sim \<lparr>created = t, esize = 154, reused = False, data = Some e1\<rparr>
          \<lparr>created = t, esize = 154, reused = False, data = Some e1, lastReused = 0\<rparr>"
    by (simp add: entry_sim_def)
  then have "list_all2 entry_sim
               (heap s @ [\<lparr>created = t, esize = 154, reused = False, data = Some e1\<rparr>])
               (heap sd @ [\<lparr>created = t, esize = 154, reused = False, data = Some e1, lastReused = 0\<rparr>])"
    by (intro list_all2_appendI simD(11) [OF assms]) simp
  then show ?thesis
    by (intro simI) (simp_all add: put_action_def put_action_delta_def None n simD [OF assms])
next
  case (Some a)
  then have n: "cache sd (k @ ''-a'') = Some a" using simD(9) [OF assms] by simp
  with Some assms show ?thesis by (simp add: put_action_def put_action_delta_def)
qed

lemma sim_put_branch:
  assumes "sim s sd"
  shows "rel_sum (=) sim (put_branch s t f line) (put_branch_delta sd t f line)"
proof (cases "ParseInt (f ! 4)")
  case None
  then show ?thesis by (simp add: put_branch_None put_branch_delta_None)
next
  case (Some sz)
  from sim_put_data [OF assms, of t "f ! 3" sz] show ?thesis
    by (simp add: put_branch_Some [OF Some] put_branch_delta_Some [OF Some] sim_put_action)
qed

text \<open>The marks, entry by entry.\<close>

lemma mark_action_reused:
  "reused (heap (mark_action s a) ! b) \<longleftrightarrow> reused (heap s ! b) \<or> b = a \<and> a < length (heap s)"
  by (auto simp: mark_action_def nth_upd)

lemma mark_data_reused:
  "reused (heap (mark_data s a) ! b) \<longleftrightarrow> reused (heap s ! b) \<or> b = a \<and> a < length (heap s)"
  by (auto simp: mark_data_def nth_upd)

lemma mark_action_total:
  "totalReusedA (mark_action s a) =
     (if reused (heap s ! a) then totalReusedA s else totalReusedA s + esize (heap s ! a))"
  by (simp add: mark_action_def)

lemma mark_data_total:
  "totalReusedD (mark_data s d) =
     (if reused (heap s ! d) then totalReusedD s else totalReusedD s + esize (heap s ! d))"
  by (simp add: mark_data_def)

lemma mark_action_other:
  "b \<noteq> a \<Longrightarrow> heap (mark_action s a) ! b = heap s ! b"
  by (simp add: mark_action_def)

lemma mark_action_delta_total:
  "totalReusedA (mark_action_delta s a) =
     (if lastReused (heap s ! a) = 0 then totalReusedA s + esize (heap s ! a) else totalReusedA s)"
  by (simp add: mark_action_delta_def)

lemma mark_data_delta_total:
  "totalReusedD (mark_data_delta s d) =
     (if lastReused (heap s ! d) = 0 then totalReusedD s + esize (heap s ! d) else totalReusedD s)"
  by (simp add: mark_data_delta_def)

lemma mark_action_delta_other:
  "b \<noteq> a \<Longrightarrow> heap (mark_action_delta s a) ! b = heap s ! b"
  by (simp add: mark_action_delta_def)

lemma mark_data_delta_other:
  "b \<noteq> a \<Longrightarrow> heap (mark_data_delta s a) ! b = heap s ! b"
  by (simp add: mark_data_delta_def)

lemma touch_lastReused:
  "lastReused (heap (touch s t a) ! b) =
     (if b = a \<and> a < length (heap s) then t else lastReused (heap s ! b))"
  by (simp add: touch_def nth_upd)

lemma reuse_delta_lastReused:
  assumes "a < length (heap s)" "d < length (heap s)"
  shows "lastReused (heap (reuse_delta s t a d) ! b) =
           (if b = a \<or> b = d then t else lastReused (heap s ! b))"
  using assms
  by (auto simp: reuse_delta_def touch_lastReused mark_action_delta_other mark_data_delta_other)

lemma reuse_delta_totals:
  assumes "a \<noteq> d"
  shows "totalReusedA (reuse_delta s t a d) =
           (if lastReused (heap s ! a) = 0 then totalReusedA s + esize (heap s ! a)
            else totalReusedA s)"
    "totalReusedD (reuse_delta s t a d) =
           (if lastReused (heap s ! d) = 0 then totalReusedD s + esize (heap s ! d)
            else totalReusedD s)"
  using assms
  by (simp_all add: reuse_delta_def mark_action_delta_total mark_data_delta_total
        mark_action_delta_other)

lemma reuse_delta_base_samples:
  "reuseA (reuse_delta s t a d) = reuseA s @ [sint (t - created (heap s ! a))]"
  "reuseD (reuse_delta s t a d) = reuseD s @ [sint (t - created (heap s ! d))]"
  by (simp_all add: reuse_delta_def)

lemma reuse_totals:
  assumes "a \<noteq> d"
  shows "totalReusedA (add_samples (mark_data (mark_action s a) d) t a d) =
           (if reused (heap s ! a) then totalReusedA s else totalReusedA s + esize (heap s ! a))"
    "totalReusedD (add_samples (mark_data (mark_action s a) d) t a d) =
           (if reused (heap s ! d) then totalReusedD s else totalReusedD s + esize (heap s ! d))"
  using assms by (simp_all add: mark_action_total mark_data_total mark_action_other)

lemma reuse_reused:
  assumes "a < length (heap s)" "d < length (heap s)"
  shows "reused (heap (add_samples (mark_data (mark_action s a) d) t a d) ! b) \<longleftrightarrow>
           reused (heap s ! b) \<or> b = a \<or> b = d"
  using assms by (auto simp: mark_data_reused mark_action_reused)

lemma sim_reuse:
  assumes sim: "sim s sd" and a: "a < length (heap s)" and d: "d < length (heap s)"
    and ad: "a \<noteq> d" and t: "t \<noteq> 0"
  shows "sim (add_samples (mark_data (mark_action s a) d) t a d) (reuse_delta sd t a d)"
proof (rule simI)
  let ?s' = "add_samples (mark_data (mark_action s a) d) t a d"
  let ?sd' = "reuse_delta sd t a d"
  from a d have a': "a < length (heap sd)" and d': "d < length (heap sd)"
    by (simp_all add: simD(10) [OF sim, symmetric])
  show "totalReusedA ?s' = totalReusedA ?sd'"
    by (simp add: mark_action_total reuse_delta_totals [OF ad] sim_nth [OF sim a] simD [OF sim])
  show "totalReusedD ?s' = totalReusedD ?sd'"
    using ad
    by (simp add: mark_data_total mark_action_reused reuse_delta_totals [OF ad]
          sim_nth [OF sim d] simD [OF sim])
  show "reuseA ?s' = reuseA ?sd'"
    by (simp add: reuse_delta_base_samples sim_nth [OF sim a] simD [OF sim])
  show "reuseD ?s' = reuseD ?sd'"
    by (simp add: reuse_delta_base_samples sim_nth [OF sim d] simD [OF sim])
  show "list_all2 entry_sim (heap ?s') (heap ?sd')"
    unfolding list_all2_conv_all_nth
  proof (intro conjI allI impI)
    show "length (heap ?s') = length (heap ?sd')" by (simp add: simD(10) [OF sim])
    fix b assume "b < length (heap ?s')"
    then have b: "b < length (heap s)" by simp
    show "entry_sim (heap ?s' ! b) (heap ?sd' ! b)"
      unfolding entry_sim_def
      using sim_nth [OF sim b] t a d
      by (auto simp: mark_data_reused mark_action_reused reuse_delta_lastReused [OF a' d'])
  qed
qed (simp_all add: simD [OF sim])

lemma sim_get_branch:
  assumes sim: "sim s sd" and wf: "wf s" and t: "t \<noteq> 0"
  shows "rel_sum (=) sim (get_branch s t f) (get_branch_delta sd t f)"
proof (cases "cache s (f ! 2 @ ''-a'')")
  case None
  then have "cache sd (f ! 2 @ ''-a'') = None" using simD(9) [OF sim] by simp
  with None sim show ?thesis by (simp add: get_branch_miss get_branch_delta_miss)
next
  case (Some a)
  then have c': "cache sd (f ! 2 @ ''-a'') = Some a" using simD(9) [OF sim] by simp
  from wf_cacheD [OF wf Some] have a: "a < length (heap s)" .
  from wf_actionD [OF wf Some] obtain d where d: "data (heap s ! a) = Some d" by auto
  from wf_refD [OF wf a d] have d1: "d < length (heap s)" and dn: "data (heap s ! d) = None"
    by simp_all
  from d dn have ad: "a \<noteq> d" by auto
  from a d1 have a': "a < length (heap sd)" and d': "d < length (heap sd)"
    by (simp_all add: simD(10) [OF sim, symmetric])
  from d sim_nth(3) [OF sim a] have dd: "data (heap sd ! a) = Some d" by simp
  show ?thesis
    by (simp add: get_branch_hit [OF Some a d d1] get_branch_delta_hit [OF c' a' dd d']
          sim_reuse [OF sim a d1 ad t])
qed

lemma sim_step:
  assumes sim: "sim s sd" and wf: "wf s" and nz: "\<not> zero_get l"
  shows "rel_sum (=) sim (step s l) (step_delta sd l)"
proof (cases "Fields l = [] \<or> length (Fields l) < 3 \<or>
              Fields l ! 1 = ''put'' \<and> length (Fields l) \<noteq> 5 \<or> ParseInt (Fields l ! 0) = None")
  case True
  with sim show ?thesis by (auto simp: step_def step_delta_def Let_def)
next
  case False
  then obtain t where t: "ParseInt (Fields l ! 0) = Some t" by auto
  have wf': "wf (stamp s t)" using wf by (simp add: wf_stamp)
  have sim': "sim (stamp s t) (stamp sd t)" by (rule sim_stamp [OF sim])
  show ?thesis
  proof (cases "Fields l ! 1 = ''get'' \<or> Fields l ! 1 = ''miss''")
    case True
    with False t nz have "t \<noteq> 0" by (auto simp: zero_get_def Let_def)
    from sim_get_branch [OF sim' wf' this] True False t show ?thesis
      by (auto simp: step_def step_delta_def Let_def)
  next
    case other: False
    with False t sim_put_branch [OF sim'] sim' show ?thesis
      by (auto simp: step_def step_delta_def Let_def)
  qed
qed

lemma sim_loop:
  assumes "sim s sd" "wf s" "\<forall>l \<in> set ls. \<not> zero_get l"
  shows "rel_sum (=) sim (loop s ls) (loop_delta sd ls)"
  using assms
proof (induction ls arbitrary: s sd)
  case Nil
  then show ?case by simp
next
  case (Cons l ls)
  from Cons.prems have nz: "\<not> zero_get l" by simp
  from sim_step [OF Cons.prems(1,2) nz]
  have r: "rel_sum (=) sim (step s l) (step_delta sd l)" .
  show ?case
  proof (cases "step s l")
    case (Inl e)
    with r have "step_delta sd l = Inl e" by (cases "step_delta sd l") simp_all
    with Inl show ?thesis by simp
  next
    case (Inr s1)
    with r obtain sd1 where sd1: "step_delta sd l = Inr sd1" "sim s1 sd1"
      by (cases "step_delta sd l") simp_all
    from wf_step [OF Cons.prems(2) Inr] have "wf s1" .
    from Cons.IH [OF sd1(2) this] Cons.prems(3) Inr sd1(1) show ?thesis by simp
  qed
qed

subsection \<open>Counting the reused bytes\<close>

lemma hit_stamp: "hit (stamp s t) l = hit s l"
  by (simp add: hit_def Let_def split: option.split)

lemma counted_onceI_none:
  assumes "hit s l = None"
    "\<And>b. b < length (heap s) \<Longrightarrow> used (heap s' ! b) = used (heap s ! b)"
    "\<And>b. b < length (heap s') \<Longrightarrow> length (heap s) \<le> b \<Longrightarrow> \<not> used (heap s' ! b)"
    "totalReusedA s' = totalReusedA s" "totalReusedD s' = totalReusedD s"
    "reuseA s' = reuseA s" "reuseD s' = reuseD s"
  shows "counted_once used s l s'"
  using assms by (simp add: counted_once_def)

lemma put_data_new:
  "length (heap s) \<le> b \<Longrightarrow> b < length (heap (snd (put_data s t k sz))) \<Longrightarrow>
   \<not> reused (heap (snd (put_data s t k sz)) ! b)"
  by (auto simp: put_data_def nth_append split: option.splits)

lemma put_action_new:
  "length (heap s) \<le> b \<Longrightarrow> b < length (heap (put_action s t k e1)) \<Longrightarrow>
   \<not> reused (heap (put_action s t k e1) ! b)"
  by (auto simp: put_action_def nth_append split: option.splits)

lemma put_branch_unused:
  assumes "put_branch s t f line = Inr s'"
  shows "(\<forall>b < length (heap s). heap s' ! b = heap s ! b) \<and>
         (\<forall>b < length (heap s'). length (heap s) \<le> b \<longrightarrow> \<not> reused (heap s' ! b)) \<and>
         totalReusedA s' = totalReusedA s \<and> totalReusedD s' = totalReusedD s \<and>
         reuseA s' = reuseA s \<and> reuseD s' = reuseD s"
proof -
  from assms obtain sz where
    s': "s' = put_action (snd (put_data s t (f ! 3) sz)) t (f ! 2) (fst (put_data s t (f ! 3) sz))"
    by (rule put_branch_Inr)
  let ?s1 = "snd (put_data s t (f ! 3) sz)"
  have le: "length (heap s) \<le> length (heap ?s1)" by simp
  have old: "heap s' ! b = heap s ! b" if "b < length (heap s)" for b
  proof -
    from that le have "b < length (heap ?s1)" by (rule less_le_trans)
    with that show ?thesis unfolding s' by simp
  qed
  have new: "\<not> reused (heap s' ! b)" if "b < length (heap s')" "length (heap s) \<le> b" for b
  proof (cases "b < length (heap ?s1)")
    case True
    with put_data_new [OF that(2) True] show ?thesis unfolding s' by simp
  next
    case False
    with that(1) show ?thesis unfolding s' by (intro put_action_new) simp_all
  qed
  from old new show ?thesis by (simp add: s')
qed

lemma counted_once_step:
  assumes wf: "wf s" and step: "step s l = Inr s'"
  shows "counted_once reused s l s'"
  using step
proof (cases rule: step_cases)
  case empty
  then show ?thesis by (intro counted_onceI_none) (simp_all add: hit_def)
next
  case (put t)
  from put_branch_unused [OF put(4)] put(1,2) show ?thesis
    by (intro counted_onceI_none) (simp_all add: hit_def)
next
  case (get t)
  have wf': "wf (stamp s t)" using wf by (simp add: wf_stamp)
  show ?thesis
  proof (cases "cache s (Fields l ! 2 @ ''-a'')")
    case None
    with get have "s' = stamp s t" by (simp add: get_branch_miss)
    with None get show ?thesis by (intro counted_onceI_none) (simp_all add: hit_def)
  next
    case (Some a)
    from wf_cacheD [OF wf Some] have a: "a < length (heap s)" .
    from wf_actionD [OF wf Some] obtain d where d: "data (heap s ! a) = Some d" by auto
    from wf_refD [OF wf a d] have d1: "d < length (heap s)" and dn: "data (heap s ! d) = None"
      by simp_all
    from d dn have ad: "a \<noteq> d" by auto
    from get(4) have s': "s' = add_samples (mark_data (mark_action (stamp s t) a) d) t a d"
      by (simp add: get_branch_hit [where a = a and d = d] Some a d d1)
    have h: "hit s l = Some (t, a)" using get Some by (simp add: hit_def)
    show ?thesis
      unfolding counted_once_def h s' using a d d1 ad
      by (simp add: mark_data_reused mark_action_reused mark_action_total mark_data_total)
  qed
next
  case (other t)
  then show ?thesis by (intro counted_onceI_none) (simp_all add: hit_def)
qed

lemma put_data_delta_new:
  "length (heap s) \<le> b \<Longrightarrow> b < length (heap (snd (put_data_delta s t k sz))) \<Longrightarrow>
   lastReused (heap (snd (put_data_delta s t k sz)) ! b) = 0"
  by (auto simp: put_data_delta_def nth_append split: option.splits)

lemma put_action_delta_new:
  "length (heap s) \<le> b \<Longrightarrow> b < length (heap (put_action_delta s t k e1)) \<Longrightarrow>
   lastReused (heap (put_action_delta s t k e1) ! b) = 0"
  by (auto simp: put_action_delta_def nth_append split: option.splits)

lemma put_branch_delta_unused:
  assumes "put_branch_delta s t f line = Inr s'"
  shows "(\<forall>b < length (heap s). heap s' ! b = heap s ! b) \<and>
         (\<forall>b < length (heap s'). length (heap s) \<le> b \<longrightarrow> lastReused (heap s' ! b) = 0) \<and>
         totalReusedA s' = totalReusedA s \<and> totalReusedD s' = totalReusedD s \<and>
         reuseA s' = reuseA s \<and> reuseD s' = reuseD s"
proof -
  from assms obtain sz where
    s': "s' = put_action_delta (snd (put_data_delta s t (f ! 3) sz)) t (f ! 2)
               (fst (put_data_delta s t (f ! 3) sz))"
    by (rule put_branch_delta_Inr)
  let ?s1 = "snd (put_data_delta s t (f ! 3) sz)"
  have le: "length (heap s) \<le> length (heap ?s1)" by simp
  have old: "heap s' ! b = heap s ! b" if "b < length (heap s)" for b
  proof -
    from that le have "b < length (heap ?s1)" by (rule less_le_trans)
    with that show ?thesis unfolding s' by simp
  qed
  have new: "lastReused (heap s' ! b) = 0" if "b < length (heap s')" "length (heap s) \<le> b" for b
  proof (cases "b < length (heap ?s1)")
    case True
    with put_data_delta_new [OF that(2) True] show ?thesis unfolding s' by simp
  next
    case False
    with that(1) show ?thesis unfolding s' by (intro put_action_delta_new) simp_all
  qed
  from old new show ?thesis by (simp add: s')
qed

lemma counted_once_step_delta:
  assumes wf: "wf s" and step: "step_delta s l = Inr s'" and nz: "\<not> zero_get l"
  shows "counted_once (\<lambda>e. lastReused e \<noteq> 0) s l s'"
  using step
proof (cases rule: step_delta_cases)
  case empty
  then show ?thesis by (intro counted_onceI_none) (simp_all add: hit_def)
next
  case (put t)
  from put_branch_delta_unused [OF put(4)] put(1,2) show ?thesis
    by (intro counted_onceI_none) (simp_all add: hit_def)
next
  case (get t)
  have wf': "wf (stamp s t)" using wf by (simp add: wf_stamp)
  from get nz have t: "t \<noteq> 0" by (auto simp: zero_get_def Let_def)
  show ?thesis
  proof (cases "cache s (Fields l ! 2 @ ''-a'')")
    case None
    with get have "s' = stamp s t" by (simp add: get_branch_delta_miss)
    with None get show ?thesis by (intro counted_onceI_none) (simp_all add: hit_def)
  next
    case (Some a)
    from wf_cacheD [OF wf Some] have a: "a < length (heap s)" .
    from wf_actionD [OF wf Some] obtain d where d: "data (heap s ! a) = Some d" by auto
    from wf_refD [OF wf a d] have d1: "d < length (heap s)" and dn: "data (heap s ! d) = None"
      by simp_all
    from d dn have ad: "a \<noteq> d" by auto
    from get(4) have s': "s' = reuse_delta (stamp s t) t a d"
      by (simp add: get_branch_delta_hit [where a = a and d = d] Some a d d1)
    have h: "hit s l = Some (t, a)" using get Some by (simp add: hit_def)
    have lr: "lastReused (heap (reuse_delta (stamp s t) t a d) ! b) =
                (if b = a \<or> b = d then t else lastReused (heap s ! b))" for b
      using reuse_delta_lastReused [of a "stamp s t" d t b] a d1 by simp
    show ?thesis
      unfolding counted_once_def h s' using a d d1 ad t
      by (simp add: lr reuse_delta_totals [OF ad] reuse_delta_base_samples)
  qed
next
  case (other t)
  then show ?thesis by (intro counted_onceI_none) (simp_all add: hit_def)
qed

text \<open>The totals are the sums of the sizes of the entries in use.\<close>

lemma credited_nth: "credited used act h = (\<Sum>b = 0..<length h. credit used act (h ! b))"
  by (simp add: credited_def sum_list_sum_nth)

lemma sum_one_more:
  fixes f g :: "nat \<Rightarrow> int64"
  assumes "x < n" "\<And>b. b < n \<Longrightarrow> g b = f b + (if b = x then c else 0)"
  shows "(\<Sum>b = 0..<n. g b) = (\<Sum>b = 0..<n. f b) + c"
proof -
  have "(\<Sum>b = 0..<n. g b) = (\<Sum>b = 0..<n. f b + (if b = x then c else 0))"
    by (rule sum.cong) (simp_all add: assms(2))
  also have "\<dots> = (\<Sum>b = 0..<n. f b) + (\<Sum>b = 0..<n. if b = x then c else 0)"
    by (rule sum.distrib)
  also have "(\<Sum>b = 0..<n. if b = x then c else 0) = c"
    using assms(1) by simp
  finally show ?thesis .
qed

lemma credited_grown:
  assumes le: "length h \<le> length h'"
    and new: "\<And>b. b < length h' \<Longrightarrow> length h \<le> b \<Longrightarrow> \<not> used (h' ! b)"
  shows "credited used act h' = (\<Sum>b = 0..<length h. credit used act (h' ! b))"
proof -
  have "(\<Sum>b = length h..<length h'. credit used act (h' ! b)) = 0"
    by (rule sum.neutral) (simp add: credit_def new)
  with sum.atLeastLessThan_concat [of 0 "length h" "length h'" "\<lambda>b. credit used act (h' ! b)"] le
  show ?thesis by (simp add: credited_nth)
qed

lemma accounted_step:
  assumes acc: "accounted used s" and wf: "wf s" and k: "kept s s'"
    and co: "counted_once used s l s'"
  shows "accounted used s'"
proof -
  let ?n = "length (heap s)"
  from k have le: "?n \<le> length (heap s')"
    and same: "\<And>b. b < ?n \<Longrightarrow> esize (heap s' ! b) = esize (heap s ! b)"
              "\<And>b. b < ?n \<Longrightarrow> data (heap s' ! b) = data (heap s ! b)"
    by (simp_all add: kept_def)
  from co have new: "\<And>b. b < length (heap s') \<Longrightarrow> ?n \<le> b \<Longrightarrow> \<not> used (heap s' ! b)"
    by (simp add: counted_once_def)
  have sums: "credited used act (heap s') = (\<Sum>b = 0..<?n. credit used act (heap s' ! b))" for act
    by (rule credited_grown [where used = used, OF le]) (rule new)
  show ?thesis
  proof (cases "hit s l")
    case None
    with co have u: "\<And>b. b < ?n \<Longrightarrow> used (heap s' ! b) = used (heap s ! b)"
      and t: "totalReusedA s' = totalReusedA s" "totalReusedD s' = totalReusedD s"
      by (simp_all add: counted_once_def)
    have "credited used act (heap s') = credited used act (heap s)" for act
    proof -
      have "(\<Sum>b = 0..<?n. credit used act (heap s' ! b)) =
              (\<Sum>b = 0..<?n. credit used act (heap s ! b))"
        by (rule sum.cong) (simp_all add: credit_def u same)
      then show ?thesis by (simp add: sums credited_nth [of used act "heap s"])
    qed
    with acc t show ?thesis by (simp add: accounted_def)
  next
    case (Some p)
    obtain t a where p: "p = (t, a)" by (cases p)
    from Some p obtain ca: "cache s (Fields l ! 2 @ ''-a'') = Some a"
      by (auto simp: hit_def Let_def split: if_splits option.splits)
    from wf_cacheD [OF wf ca] have a: "a < ?n" .
    from co Some p obtain d where d: "data (heap s ! a) = Some d"
      and u: "used (heap s' ! a)" "used (heap s' ! d)"
        "\<And>b. b < ?n \<Longrightarrow> b \<noteq> a \<Longrightarrow> b \<noteq> d \<Longrightarrow> used (heap s' ! b) = used (heap s ! b)"
      and tA: "totalReusedA s' =
                (if used (heap s ! a) then totalReusedA s else totalReusedA s + esize (heap s ! a))"
      and tD: "totalReusedD s' =
                (if used (heap s ! d) then totalReusedD s else totalReusedD s + esize (heap s ! d))"
      by (auto simp: counted_once_def)
    from wf_refD [OF wf a d] have d1: "d < ?n" and dn: "data (heap s ! d) = None" by simp_all
    have "(\<Sum>b = 0..<?n. credit used True (heap s' ! b)) =
            (\<Sum>b = 0..<?n. credit used True (heap s ! b)) +
            (if used (heap s ! a) then 0 else esize (heap s ! a))"
    proof (rule sum_one_more [OF a])
      fix b assume b: "b < ?n"
      show "credit used True (heap s' ! b) =
              credit used True (heap s ! b) +
              (if b = a then if used (heap s ! a) then 0 else esize (heap s ! a) else 0)"
        using b u d dn a d1 by (cases "b = a"; cases "b = d") (auto simp: credit_def same)
    qed
    then have cA: "credited used True (heap s') =
            credited used True (heap s) + (if used (heap s ! a) then 0 else esize (heap s ! a))"
      by (simp add: sums credited_nth [of used True "heap s"])
    have "(\<Sum>b = 0..<?n. credit used False (heap s' ! b)) =
            (\<Sum>b = 0..<?n. credit used False (heap s ! b)) +
            (if used (heap s ! d) then 0 else esize (heap s ! d))"
    proof (rule sum_one_more [OF d1])
      fix b assume b: "b < ?n"
      show "credit used False (heap s' ! b) =
              credit used False (heap s ! b) +
              (if b = d then if used (heap s ! d) then 0 else esize (heap s ! d) else 0)"
        using b u d dn a d1 by (cases "b = a"; cases "b = d") (auto simp: credit_def same)
    qed
    then have cD: "credited used False (heap s') =
            credited used False (heap s) + (if used (heap s ! d) then 0 else esize (heap s ! d))"
      by (simp add: sums credited_nth [of used False "heap s"])
    from cA cD acc tA tD show ?thesis by (simp add: accounted_def)
  qed
qed

lemma accounted_init: "accounted used init"
  by (simp add: accounted_def credited_def init_def)

lemma accounted_init_delta: "accounted used init_delta"
  by (simp add: accounted_def credited_def init_delta_def)

lemma accounted_loop:
  "accounted reused s \<Longrightarrow> wf s \<Longrightarrow> loop s ls = Inr s' \<Longrightarrow> accounted reused s'"
proof (induction ls arbitrary: s)
  case Nil
  then show ?case by simp
next
  case (Cons l ls)
  from Cons.prems(3) obtain s1 where s1: "step s l = Inr s1" "loop s1 ls = Inr s'"
    by (auto split: sum.splits)
  from accounted_step [OF Cons.prems(1,2) kept_step [OF s1(1)]
      counted_once_step [OF Cons.prems(2) s1(1)]]
  have "accounted reused s1" .
  from Cons.IH [OF this wf_step [OF Cons.prems(2) s1(1)] s1(2)] show ?case .
qed

lemma accounted_loop_delta:
  "accounted (\<lambda>e. lastReused e \<noteq> 0) s \<Longrightarrow> wf s \<Longrightarrow> \<forall>l \<in> set ls. \<not> zero_get l \<Longrightarrow>
   loop_delta s ls = Inr s' \<Longrightarrow> accounted (\<lambda>e. lastReused e \<noteq> 0) s'"
proof (induction ls arbitrary: s)
  case Nil
  then show ?case by simp
next
  case (Cons l ls)
  from Cons.prems(4) obtain s1 where s1: "step_delta s l = Inr s1" "loop_delta s1 ls = Inr s'"
    by (auto split: sum.splits)
  from Cons.prems(3) have nz: "\<not> zero_get l" and rest: "\<forall>l \<in> set ls. \<not> zero_get l" by simp_all
  from accounted_step [OF Cons.prems(1,2) kept_step_delta [OF s1(1)]
      counted_once_step_delta [OF Cons.prems(2) s1(1) nz]]
  have "accounted (\<lambda>e. lastReused e \<noteq> 0) s1" .
  from Cons.IH [OF this wf_step_delta [OF Cons.prems(2) s1(1)] rest s1(2)] show ?case .
qed

subsection \<open>The first and the last time of a log\<close>

text \<open>
  Claim C1 says that after the scan of a log with a non-empty line \<open>firstTime\<close> is the
  time of the first non-empty line and \<open>lastTime\<close> the time of the last one, whatever the
  kinds of these lines. On the log \<open>0 get A\<close>, \<open>5 get A\<close> the first non-empty line has
  time 0 and the scan ends with \<open>firstTime = 5\<close>: line 72 sets \<open>firstTime\<close> while it is 0,
  so a first time of 0 leaves it unset and the next line sets it.
\<close>

theorem first_time_zero_counterexample:
  "stamps (Split ''0 get A\<newline>5 get A'') = [Some 0, Some 5] \<and>
   map_sum id firstTime (scan ''0 get A\<newline>5 get A'') = Inr 5 \<and>
   map_sum id firstTime (scan_delta ''0 get A\<newline>5 get A'') = Inr 5"
  by (simp add: stamps_def eval_scan eval_scan_delta)

text \<open>
  Claim C1 as amended: after the scan of a log with a non-empty line, \<open>lastTime\<close> is the
  time of the last non-empty line, and \<open>firstTime\<close> is the time of the first non-empty
  line when that time is not 0; in both cases whatever the kind of the line, recognised
  or not, and whether or not its key was ever put.
\<close>

theorem first_and_last_time:
  "stamps (Split file) \<noteq> [] \<longrightarrow>
     (scan file = Inr s \<longrightarrow>
        Some (lastTime s) = last (stamps (Split file)) \<and>
        (hd (stamps (Split file)) \<noteq> Some 0 \<longrightarrow> Some (firstTime s) = hd (stamps (Split file)))) \<and>
     (scan_delta file = Inr sd \<longrightarrow>
        Some (lastTime sd) = last (stamps (Split file)) \<and>
        (hd (stamps (Split file)) \<noteq> Some 0 \<longrightarrow> Some (firstTime sd) = hd (stamps (Split file))))"
proof (intro conjI impI)
  assume ne: "stamps (Split file) \<noteq> []"
  { assume "scan file = Inr s"
    then have l: "loop init (Split file) = Inr s" by (simp add: scan_def)
    from loop_lastTime [OF l ne] show "Some (lastTime s) = last (stamps (Split file))" .
    assume "hd (stamps (Split file)) \<noteq> Some 0"
    from loop_firstTime [OF l _ ne this] show "Some (firstTime s) = hd (stamps (Split file))"
      by (simp add: init_def) }
  { assume "scan_delta file = Inr sd"
    then have l: "loop_delta init_delta (Split file) = Inr sd" by (simp add: scan_delta_def)
    from loop_lastTime_delta [OF l ne] show "Some (lastTime sd) = last (stamps (Split file))" .
    assume "hd (stamps (Split file)) \<noteq> Some 0"
    from loop_firstTime_delta [OF l _ ne this]
    show "Some (firstTime sd) = hd (stamps (Split file))"
      by (simp add: init_delta_def) }
qed

theorem first_and_last_time_witness:
  "\<exists>s sd. scan ''1000 put A D 500\<newline>\<newline>1010 touch A x\<newline> \<newline>1020 get B\<newline>'' = Inr s \<and>
          scan_delta ''1000 put A D 500\<newline>\<newline>1010 touch A x\<newline> \<newline>1020 get B\<newline>'' = Inr sd \<and>
          stamps (Split ''1000 put A D 500\<newline>\<newline>1010 touch A x\<newline> \<newline>1020 get B\<newline>'')
            = [Some 1000, Some 1010, Some 1020] \<and>
          firstTime s = 1000 \<and> lastTime s = 1020 \<and> firstTime sd = 1000 \<and> lastTime sd = 1020"
proof -
  let ?file = "''1000 put A D 500\<newline>\<newline>1010 touch A x\<newline> \<newline>1020 get B\<newline>''"
  obtain s where s: "scan ?file = Inr s" by (simp add: eval_scan)
  obtain sd where sd: "scan_delta ?file = Inr sd" by (simp add: eval_scan_delta)
  have st: "stamps (Split ?file) = [Some 1000, Some 1010, Some 1020]"
    by (simp add: stamps_def eval_parse)
  from first_and_last_time [of ?file s sd] s sd st
  have "firstTime s = 1000" "lastTime s = 1020" "firstTime sd = 1000" "lastTime sd = 1020"
    by simp_all
  with s sd st show ?thesis by blast
qed

subsection \<open>Every entry is counted once\<close>

text \<open>
  Claim C2 says that, for every log and every entry, the entry becomes reused at most
  once, that its size is added to \<open>totalReusedA\<close> or \<open>totalReusedD\<close> exactly once, at that
  moment, and that repeated \<open>get\<close> or \<open>miss\<close> lines on one action key add to each total
  at most once. The version with delta samples takes an entry for not yet reused while
  its \<open>lastReused\<close> is 0 and stores the time of the line there: on the log
  \<open>0 put A D 500\<close>, \<open>0 get A\<close>, \<open>0 get A\<close> the second \<open>get\<close> on the key \<open>A\<close> adds 154
  to \<open>totalReusedA\<close> and 500 to \<open>totalReusedD\<close> a second time.
\<close>

theorem reuse_counted_twice_counterexample:
  "map_sum id totalReusedA (scan_delta ''0 put A D 500\<newline>0 get A'') = Inr 154 \<and>
   map_sum id totalReusedA (scan_delta ''0 put A D 500\<newline>0 get A\<newline>0 get A'') = Inr 308 \<and>
   map_sum id totalReusedD (scan_delta ''0 put A D 500\<newline>0 get A'') = Inr 500 \<and>
   map_sum id totalReusedD (scan_delta ''0 put A D 500\<newline>0 get A\<newline>0 get A'') = Inr 1000"
  by (simp add: eval_scan_delta)

text \<open>
  Claim C2 as amended. In \<open>main.go\<close>, for every log: after any number of lines the two
  totals of reused bytes are the sums of the sizes of the reused action entries and of the
  reused data entries; a line never turns a reused entry into one that is not; a \<open>get\<close>
  or \<open>miss\<close> on a registered action key marks the action entry and its data entry as
  reused, adds the size of each to its total exactly when it was not reused before, and
  appends one sample to \<open>reuseA\<close> and one to \<open>reuseD\<close> every time; no other line changes
  the totals or the samples. In the version with delta samples, where an entry counts as
  reused when \<open>lastReused\<close> is not 0, the same holds for every log in which no \<open>get\<close> or
  \<open>miss\<close> line has the time 0.
\<close>

theorem reuse_counted_once:
  "(loop init ls = Inr s \<and> step s l = Inr s' \<longrightarrow>
      accounted reused s \<and> accounted reused s' \<and> counted_once reused s l s') \<and>
   ((\<forall>x \<in> set (ls @ [l]). \<not> zero_get x) \<and>
    loop_delta init_delta ls = Inr sd \<and> step_delta sd l = Inr sd' \<longrightarrow>
      accounted (\<lambda>e. lastReused e \<noteq> 0) sd \<and> accounted (\<lambda>e. lastReused e \<noteq> 0) sd' \<and>
      counted_once (\<lambda>e. lastReused e \<noteq> 0) sd l sd')"
proof (intro conjI impI; elim conjE)
  assume r: "loop init ls = Inr s" and st: "step s l = Inr s'"
  from wf_loop [OF wf_init r] have wf: "wf s" .
  from accounted_loop [OF accounted_init wf_init r] show acc: "accounted reused s" .
  from counted_once_step [OF wf st] show co: "counted_once reused s l s'" .
  from accounted_step [OF acc wf kept_step [OF st] co] show "accounted reused s'" .
next
  assume nz: "\<forall>x \<in> set (ls @ [l]). \<not> zero_get x"
    and r: "loop_delta init_delta ls = Inr sd" and st: "step_delta sd l = Inr sd'"
  from nz have nz1: "\<forall>x \<in> set ls. \<not> zero_get x" and nz2: "\<not> zero_get l" by simp_all
  from wf_loop_delta [OF wf_init_delta r] have wf: "wf sd" .
  from accounted_loop_delta [OF accounted_init_delta wf_init_delta nz1 r]
  show acc: "accounted (\<lambda>e. lastReused e \<noteq> 0) sd" .
  from counted_once_step_delta [OF wf st nz2]
  show co: "counted_once (\<lambda>e. lastReused e \<noteq> 0) sd l sd'" .
  from accounted_step [OF acc wf kept_step_delta [OF st] co]
  show "accounted (\<lambda>e. lastReused e \<noteq> 0) sd'" .
qed

theorem reuse_counted_once_witness:
  "\<exists>s s' sd sd'.
     loop init [''1000 put A D 500'', ''1010 get A''] = Inr s \<and> step s ''1020 miss A'' = Inr s' \<and>
     loop_delta init_delta [''1000 put A D 500'', ''1010 get A''] = Inr sd \<and>
     step_delta sd ''1020 miss A'' = Inr sd' \<and>
     totalReusedA s = 154 \<and> totalReusedA s' = 154 \<and> totalReusedD s = 500 \<and>
     totalReusedD s' = 500 \<and> reuseA s = [10] \<and> reuseA s' = [10, 20] \<and>
     totalReusedA sd = 154 \<and> totalReusedA sd' = 154 \<and> totalReusedD sd = 500 \<and>
     totalReusedD sd' = 500 \<and> reuseA sd = [10] \<and> reuseA sd' = [10, 20] \<and>
     accounted reused s' \<and> counted_once reused s ''1020 miss A'' s' \<and>
     accounted (\<lambda>e. lastReused e \<noteq> 0) sd' \<and>
     counted_once (\<lambda>e. lastReused e \<noteq> 0) sd ''1020 miss A'' sd'"
proof -
  obtain s s' where m:
    "loop init [''1000 put A D 500'', ''1010 get A''] = Inr s" "step s ''1020 miss A'' = Inr s'"
    "totalReusedA s = 154" "totalReusedA s' = 154" "totalReusedD s = 500" "totalReusedD s' = 500"
    "reuseA s = [10]" "reuseA s' = [10, 20]"
    by (simp add: eval_scan)
  obtain sd sd' where d:
    "loop_delta init_delta [''1000 put A D 500'', ''1010 get A''] = Inr sd"
    "step_delta sd ''1020 miss A'' = Inr sd'"
    "totalReusedA sd = 154" "totalReusedA sd' = 154" "totalReusedD sd = 500"
    "totalReusedD sd' = 500" "reuseA sd = [10]" "reuseA sd' = [10, 20]"
    by (simp add: eval_scan_delta)
  have nz: "\<forall>x \<in> set ([''1000 put A D 500'', ''1010 get A''] @ [''1020 miss A'']). \<not> zero_get x"
    by (simp add: zero_get_def eval_parse)
  from reuse_counted_once [of "[''1000 put A D 500'', ''1010 get A'']" s "''1020 miss A''" s' sd sd']
    m(1,2) d(1,2) nz
  have "accounted reused s'" "counted_once reused s ''1020 miss A'' s'"
    "accounted (\<lambda>e. lastReused e \<noteq> 0) sd'"
    "counted_once (\<lambda>e. lastReused e \<noteq> 0) sd ''1020 miss A'' sd'"
    by blast+
  with m d show ?thesis by blast
qed

subsection \<open>The two versions compute the same base outputs\<close>

text \<open>
  Claim C3 says that on every log the two versions end with the same \<open>totalA\<close>,
  \<open>totalReusedA\<close>, \<open>totalD\<close>, \<open>totalReusedD\<close>, \<open>reuseA\<close>, \<open>reuseD\<close>, \<open>firstTime\<close> and
  \<open>lastTime\<close>. On the log \<open>0 put A D 500\<close>, \<open>0 get A\<close>, \<open>0 get A\<close> they do not: the
  version with delta samples recognises a first reuse by \<open>lastReused == 0\<close> and stores the
  time of the line in \<open>lastReused\<close>, so after a \<open>get\<close> at time 0 the entry still counts as
  never reused and the second \<open>get\<close> adds its size again.
\<close>

theorem delta_version_differs_counterexample:
  "map_sum id summary (scan ''0 put A D 500\<newline>0 get A\<newline>0 get A'')
     = Inr (154, 154, 500, 500, [0, 0], [0, 0], 0, 0) \<and>
   map_sum id summary (scan_delta ''0 put A D 500\<newline>0 get A\<newline>0 get A'')
     = Inr (154, 308, 500, 1000, [0, 0], [0, 0], 0, 0)"
  by (simp add: eval_scan eval_scan_delta summary_def)

text \<open>
  Claim C3 as amended: on every log in which no \<open>get\<close> or \<open>miss\<close> line has the time 0,
  the two versions either stop with the same error or end with the same \<open>totalA\<close>,
  \<open>totalReusedA\<close>, \<open>totalD\<close>, \<open>totalReusedD\<close>, the same \<open>reuseA\<close> and \<open>reuseD\<close> in the same
  order, and the same \<open>firstTime\<close> and \<open>lastTime\<close>; the delta samples come on top and change
  none of these.
\<close>

theorem delta_version_agrees:
  assumes "\<forall>l \<in> set (Split file). \<not> zero_get l"
  shows "map_sum id summary (scan file) = map_sum id summary (scan_delta file)"
proof -
  from sim_loop [OF sim_init wf_init assms]
  have "rel_sum (=) sim (scan file) (scan_delta file)" by (simp add: scan_def scan_delta_def)
  then show ?thesis
    by (cases "scan file"; cases "scan_delta file") (simp_all add: sim_def)
qed

theorem delta_version_agrees_witness:
  "map_sum id summary (scan ''1000 put A D 500\<newline>1010 get A\<newline>1020 miss A\<newline>1030 put B D 7'')
     = Inr (308, 154, 500, 500, [10, 20], [10, 20], 1000, 1030) \<and>
   map_sum id summary (scan_delta ''1000 put A D 500\<newline>1010 get A\<newline>1020 miss A\<newline>1030 put B D 7'')
     = Inr (308, 154, 500, 500, [10, 20], [10, 20], 1000, 1030)"
proof -
  let ?file = "''1000 put A D 500\<newline>1010 get A\<newline>1020 miss A\<newline>1030 put B D 7''"
  have nz: "\<forall>l \<in> set (Split ?file). \<not> zero_get l"
    by (simp add: zero_get_def eval_parse)
  have "map_sum id summary (scan ?file) = Inr (308, 154, 500, 500, [10, 20], [10, 20], 1000, 1030)"
    by (simp add: eval_scan summary_def)
  with delta_version_agrees [OF nz] show ?thesis by simp
qed

subsection \<open>A malformed line aborts the run\<close>

text \<open>
  Claim C4. When the log holds a malformed line, the run ends with \<open>log.Fatalf\<close> at the
  first such line: the error names that line, and nothing has been printed, neither a
  report nor a part of one. This holds for both versions.
\<close>

theorem malformed_aborts:
  assumes "Split file = pre @ bad # post" "\<forall>l \<in> set pre. \<not> malformed l" "malformed bad"
  shows "main file \<in> {([], Some (InvalidLine bad)), ([], Some (InvalidTime bad)),
                        ([], Some (InvalidSize bad))} \<and>
         main_delta file \<in> {([], Some (InvalidLine bad)), ([], Some (InvalidTime bad)),
                              ([], Some (InvalidSize bad))}"
  using loop_first_malformed [OF wf_init assms(2,3), of post]
    loop_delta_first_malformed [OF wf_init_delta assms(2,3), of post]
  by (auto simp: main_def main_delta_def scan_def scan_delta_def assms(1))

theorem malformed_aborts_witness:
  "main ''1000 put A D 500\<newline>100 put A D\<newline>1010 get A'' = ([], Some (InvalidLine ''100 put A D'')) \<and>
   main_delta ''1000 put A D 500\<newline>100 put A D\<newline>1010 get A'' = ([], Some (InvalidLine ''100 put A D''))"
proof -
  have s: "Split ''1000 put A D 500\<newline>100 put A D\<newline>1010 get A'' = [''1000 put A D 500''] @ ''100 put A D'' # [''1010 get A'']"
    by simp
  have p: "\<forall>l \<in> set [''1000 put A D 500'']. \<not> malformed l"
    by (simp add: malformed_def eval_parse)
  have b: "malformed ''100 put A D''"
    by (simp add: malformed_def eval_parse)
  from malformed_aborts [OF s p b] show ?thesis
    by (simp add: main_def main_delta_def eval_scan eval_scan_delta)
qed

subsection \<open>The first put of a key wins\<close>

text \<open>
  Claim C5. Let a log hold two \<open>put\<close> lines \<open>l1\<close> and, later, \<open>l2\<close>. If they name the same
  action key, the action entry created for it is still registered at the same address
  after \<open>l2\<close>, \<open>l2\<close> changes no field of it, its \<open>created\<close>, \<open>size\<close> and \<open>data\<close> are what
  they were right after \<open>l1\<close> (so \<open>data\<close> is never pointed elsewhere), and \<open>l2\<close> adds
  nothing to \<open>totalA\<close>. If they name the same data key, the same holds of the data entry
  and of \<open>totalD\<close>. Both versions behave so.
\<close>

theorem first_write_wins:
  "(loop init pre = Inr s0 \<and> step s0 l1 = Inr s1 \<and> loop s1 mid = Inr s \<and> step s l2 = Inr s' \<and>
    is_put l1 \<and> is_put l2 \<longrightarrow>
      (Fields l1 ! 2 = Fields l2 ! 2 \<longrightarrow>
         untouched_since s1 s s' (Fields l2 ! 2 @ ''-a'') \<and> totalA s' = totalA s) \<and>
      (Fields l1 ! 3 = Fields l2 ! 3 \<longrightarrow>
         untouched_since s1 s s' (Fields l2 ! 3 @ ''-d'') \<and> totalD s' = totalD s)) \<and>
   (loop_delta init_delta pre = Inr sd0 \<and> step_delta sd0 l1 = Inr sd1 \<and>
    loop_delta sd1 mid = Inr sd \<and> step_delta sd l2 = Inr sd' \<and> is_put l1 \<and> is_put l2 \<longrightarrow>
      (Fields l1 ! 2 = Fields l2 ! 2 \<longrightarrow>
         untouched_since sd1 sd sd' (Fields l2 ! 2 @ ''-a'') \<and> totalA sd' = totalA sd) \<and>
      (Fields l1 ! 3 = Fields l2 ! 3 \<longrightarrow>
         untouched_since sd1 sd sd' (Fields l2 ! 3 @ ''-d'') \<and> totalD sd' = totalD sd))"
proof (intro conjI impI; elim conjE)
  assume a: "loop init pre = Inr s0" "step s0 l1 = Inr s1" "loop s1 mid = Inr s"
    "step s l2 = Inr s'" "is_put l1" "is_put l2"
  note sp = second_put [OF a(2) a(5) a(3) a(4) a(6) wf_loop [OF wf_init a(1)]]
  { assume eq: "Fields l1 ! 2 = Fields l2 ! 2"
    with sp show "untouched_since s1 s s' (Fields l2 ! 2 @ ''-a'')"
      unfolding untouched_since_def by auto
    from sp eq show "totalA s' = totalA s" by auto }
  { assume eq: "Fields l1 ! 3 = Fields l2 ! 3"
    with sp show "untouched_since s1 s s' (Fields l2 ! 3 @ ''-d'')"
      unfolding untouched_since_def by auto
    from sp eq show "totalD s' = totalD s" by auto }
next
  assume a: "loop_delta init_delta pre = Inr sd0" "step_delta sd0 l1 = Inr sd1"
    "loop_delta sd1 mid = Inr sd" "step_delta sd l2 = Inr sd'" "is_put l1" "is_put l2"
  note sp = second_put_delta [OF a(2) a(5) a(3) a(4) a(6) wf_loop_delta [OF wf_init_delta a(1)]]
  { assume eq: "Fields l1 ! 2 = Fields l2 ! 2"
    with sp show "untouched_since sd1 sd sd' (Fields l2 ! 2 @ ''-a'')"
      unfolding untouched_since_def by auto
    from sp eq show "totalA sd' = totalA sd" by auto }
  { assume eq: "Fields l1 ! 3 = Fields l2 ! 3"
    with sp show "untouched_since sd1 sd sd' (Fields l2 ! 3 @ ''-d'')"
      unfolding untouched_since_def by auto
    from sp eq show "totalD sd' = totalD sd" by auto }
qed

theorem first_write_wins_witness:
  "\<exists>s1 s s' sd1 sd sd'.
     step init ''1000 put A D 500'' = Inr s1 \<and> loop s1 [''1010 get A''] = Inr s \<and>
     step s ''1020 put A D 900'' = Inr s' \<and>
     step_delta init_delta ''1000 put A D 500'' = Inr sd1 \<and>
     loop_delta sd1 [''1010 get A''] = Inr sd \<and> step_delta sd ''1020 put A D 900'' = Inr sd' \<and>
     untouched_since s1 s s' ''A-a'' \<and> untouched_since s1 s s' ''D-d'' \<and>
     untouched_since sd1 sd sd' ''A-a'' \<and> untouched_since sd1 sd sd' ''D-d'' \<and>
     totalA s' = 154 \<and> totalD s' = 500 \<and> totalA sd' = 154 \<and> totalD sd' = 500 \<and>
     esize (heap s' ! 0) = 500 \<and> created (heap s' ! 1) = 1000 \<and> data (heap s' ! 1) = Some 0"
proof -
  obtain s1 s s' where m:
    "step init ''1000 put A D 500'' = Inr s1" "loop s1 [''1010 get A''] = Inr s"
    "step s ''1020 put A D 900'' = Inr s'" "totalA s = 154" "totalD s = 500"
    "esize (heap s' ! 0) = 500" "created (heap s' ! 1) = 1000" "data (heap s' ! 1) = Some 0"
    by (simp add: eval_scan)
  obtain sd1 sd sd' where d:
    "step_delta init_delta ''1000 put A D 500'' = Inr sd1"
    "loop_delta sd1 [''1010 get A''] = Inr sd" "step_delta sd ''1020 put A D 900'' = Inr sd'"
    "totalA sd = 154" "totalD sd = 500"
    by (simp add: eval_scan_delta)
  have p: "is_put ''1000 put A D 500''" "is_put ''1020 put A D 900''"
    "Fields ''1000 put A D 500'' ! 2 = ''A''" "Fields ''1020 put A D 900'' ! 2 = ''A''"
    "Fields ''1000 put A D 500'' ! 3 = ''D''" "Fields ''1020 put A D 900'' ! 3 = ''D''"
    by (simp_all add: is_put_def eval_parse)
  have i: "loop init [] = Inr init" "loop_delta init_delta [] = Inr init_delta" by simp_all
  from first_write_wins [of "[]" init "''1000 put A D 500''" s1 "[''1010 get A'']" s
      "''1020 put A D 900''" s' init_delta sd1 sd sd'] m d p i
  show ?thesis by (intro exI [of _ s1] exI [of _ s] exI [of _ s'] exI [of _ sd1] exI [of _ sd] exI [of _ sd']) simp
qed

subsection \<open>The example scenario\<close>

text \<open>
  Claim C6. On the log of the three lines \<open>1000 put A D 500\<close>, \<open>1010 get A\<close> and
  \<open>1020 get A\<close> the scan ends with \<open>totalA = 154\<close>, \<open>totalReusedA = 154\<close>,
  \<open>totalD = 500\<close>, \<open>totalReusedD = 500\<close>, \<open>reuseA = [10, 20]\<close>, \<open>reuseD = [10, 20]\<close>,
  \<open>firstTime = 1000\<close> and \<open>lastTime = 1020\<close>. The action bytes are credited by the
  line at time 1010: \<open>totalReusedA\<close> is 0 after the first line and 154 after the second.
  The version with delta samples gives the same eight values.
\<close>

theorem example_scenario:
  "map_sum id summary (scan ''1000 put A D 500\<newline>1010 get A\<newline>1020 get A'')
     = Inr (154, 154, 500, 500, [10, 20], [10, 20], 1000, 1020) \<and>
   map_sum id totalReusedA (scan ''1000 put A D 500'') = Inr 0 \<and>
   map_sum id totalReusedA (scan ''1000 put A D 500\<newline>1010 get A'') = Inr 154 \<and>
   map_sum id summary (scan_delta ''1000 put A D 500\<newline>1010 get A\<newline>1020 get A'')
     = Inr (154, 154, 500, 500, [10, 20], [10, 20], 1000, 1020)"
  by (simp add: eval_scan eval_scan_delta summary_def)

subsection \<open>The percentile report\<close>



subsection \<open>Percentiles grow with \<open>p\<close>\<close>

text \<open>
  Claim C8. For a non-empty sample sequence, once sorted ascending, the percentile
  values reported, in the order 10, 20, ..., 90, 95, 99, 99.9, max, never decrease: the
  value for \<open>p1\<close> is at most the value for \<open>p2\<close> whenever \<open>p1 \<le> p2\<close>, and none exceeds
  the maximum, which comes last.

  In the statement, the numbers of days that \<open>printCache\<close> prints for a sorted sequence
  are sorted, and for every log that the scan accepts every percentile table that \<open>main\<close>
  prints, in either version, is sorted in the order printed.
\<close>

theorem percentiles_monotone:
  "(sorted ys \<longrightarrow> sorted (numbers (fst (printCache name tot tr ys)))) \<and>
   (scan file = Inr s \<longrightarrow> (\<forall>ns \<in> set (runs (fst (main file))). sorted ns)) \<and>
   (scan_delta file = Inr sd \<longrightarrow> (\<forall>ns \<in> set (runs (fst (main_delta file))). sorted ns))"
proof (intro conjI impI)
  assume ys: "sorted ys"
  show "sorted (numbers (fst (printCache name tot tr ys)))"
  proof (cases "ys = []")
    case True
    then show ?thesis
      by (simp add: printCache_block block_def numbers_def List.map_filter_simps)
  next
    case False
    have "numbers (block name tot tr ys) = numbers (percentiles ys)"
      using False by (simp add: block_def numbers_def List.map_filter_simps)
    with sorted_numbers_percentiles [OF ys False] show ?thesis
      by (simp add: printCache_block)
  qed
next
  assume sc: "scan file = Inr s"
  from sorted_runs_report [of s]
  show "\<forall>ns \<in> set (runs (fst (main file))). sorted ns"
    by (simp only: main_report [OF sc])
next
  assume sc: "scan_delta file = Inr sd"
  from sorted_runs_report_delta [OF scan_delta_balanced [OF sc]]
  show "\<forall>ns \<in> set (runs (fst (main_delta file))). sorted ns"
    by (simp only: main_delta_report [OF sc])
qed

theorem percentiles_monotone_witness:
  "runs (fst (main ''1000 put A D 500\<newline>1040 get A\<newline>1010 get A\<newline>1020 get A'')) =
     [[], [], [], [], [],
      [days 10, days 10, days 10, days 20, days 20, days 20, days 40, days 40, days 40,
       days 40, days 40, days 40, days 40],
      [],
      [days 10, days 10, days 10, days 20, days 20, days 20, days 40, days 40, days 40,
       days 40, days 40, days 40, days 40]] \<and>
   sorted [days 10, days 10, days 10, days 20, days 20, days 20, days 40, days 40, days 40,
           days 40, days 40, days 40, days 40] \<and>
   sorted (numbers (fst (printCache ''data'' 500 500 [10, 20, 40])))"
proof -
  let ?file = "''1000 put A D 500\<newline>1040 get A\<newline>1010 get A\<newline>1020 get A''"
  obtain s where s: "scan ?file = Inr s" "reuseA s = [40, 10, 20]" "reuseD s = [40, 10, 20]"
    by (simp add: eval_scan)
  obtain sd where sd: "scan_delta ?file = Inr sd" by (simp add: eval_scan_delta)
  note inst = percentiles_monotone [of "[10, 20, 40]" "''data''" 500 500 ?file s sd]
  have r: "runs (fst (main ?file)) =
     [[], [], [], [], [],
      [days 10, days 10, days 10, days 20, days 20, days 20, days 40, days 40, days 40,
       days 40, days 40, days 40, days 40],
      [],
      [days 10, days 10, days 10, days 20, days 20, days 20, days 40, days 40, days 40,
       days 40, days 40, days 40, days 40]]"
    by (simp add: main_report [OF s(1)] report_eq s block_def percentiles_def)
  from inst s(1) have "\<forall>ns \<in> set (runs (fst (main ?file))). sorted ns" by blast
  with r have "sorted [days 10, days 10, days 10, days 20, days 20, days 20, days 40, days 40,
                       days 40, days 40, days 40, days 40, days 40]"
    by simp
  moreover from inst have "sorted (numbers (fst (printCache ''data'' 500 500 [10, 20, 40])))"
    by simp
  ultimately show ?thesis using r by simp
qed

subsection \<open>An action entry always has its data entry\<close>

text \<open>
  Claim C9. After any number of lines of any log that has not been rejected so far, every
  action entry in the registry holds a \<open>data\<close> pointer that is not \<open>nil\<close> and leads to an
  entry; the scan therefore never ends in a nil-pointer panic, whatever line comes next.
  The list \<open>ls\<close> stands for the lines processed so far, so the statement covers every
  prefix of every log, in both versions.
\<close>

theorem action_data_never_nil:
  "loop init ls \<noteq> Inl MemFault \<and> loop_delta init_delta ls \<noteq> Inl MemFault \<and>
   (loop init ls = Inr s \<longrightarrow> actions_have_data s) \<and>
   (loop_delta init_delta ls = Inr sd \<longrightarrow> actions_have_data sd)"
  using loop_no_fault [OF wf_init, of ls] loop_delta_no_fault [OF wf_init_delta, of ls]
    wf_loop [OF wf_init, of ls s] wf_loop_delta [OF wf_init_delta, of ls sd]
  by (auto intro: wf_actions_have_data)

theorem action_data_never_nil_witness:
  "\<exists>s sd. loop init [''1000 put A D 500'', ''1010 get A''] = Inr s \<and>
          loop_delta init_delta [''1000 put A D 500'', ''1010 get A''] = Inr sd \<and>
          cache s ''A-a'' = Some 1 \<and> data (heap s ! 1) = Some 0 \<and>
          cache sd ''A-a'' = Some 1 \<and> data (heap sd ! 1) = Some 0 \<and>
          actions_have_data s \<and> actions_have_data sd"
proof -
  obtain s where s: "loop init [''1000 put A D 500'', ''1010 get A''] = Inr s"
    "cache s ''A-a'' = Some 1" "data (heap s ! 1) = Some 0"
    by (simp add: eval_scan)
  obtain sd where sd: "loop_delta init_delta [''1000 put A D 500'', ''1010 get A''] = Inr sd"
    "cache sd ''A-a'' = Some 1" "data (heap sd ! 1) = Some 0"
    by (simp add: eval_scan_delta)
  from action_data_never_nil [of "[''1000 put A D 500'', ''1010 get A'']" s sd] s sd
  show ?thesis by blast
qed

subsection \<open>Equal lengths of the sample sequences\<close>

text \<open>
  Claim C10. After any number of lines of any log, \<open>reuseA\<close> and \<open>reuseD\<close> have the same
  length, and in the version with delta samples \<open>reuseDeltaA\<close> and \<open>reuseDeltaD\<close> have
  that length too. So \<open>printCache\<close> of that version, which indexes the delta sequence
  with numbers computed from \<open>len(reuse)\<close>, stays within the bounds of the delta sequence:
  neither call panics, and the report ends without a panic.
\<close>

theorem sample_sequences_balanced:
  "(loop init ls = Inr s \<longrightarrow> length (reuseA s) = length (reuseD s)) \<and>
   (loop_delta init_delta ls = Inr sd \<longrightarrow>
      length (reuseD sd) = length (reuseA sd) \<and>
      length (reuseDeltaA sd) = length (reuseA sd) \<and>
      length (reuseDeltaD sd) = length (reuseA sd) \<and>
      snd (printCache_delta ''action'' (totalA sd) (totalReusedA sd) (sort (reuseA sd))
             (sort (reuseDeltaA sd))) = None \<and>
      snd (printCache_delta ''data'' (totalD sd) (totalReusedD sd) (sort (reuseD sd))
             (sort (reuseDeltaD sd))) = None \<and>
      snd (report_delta sd) = None)"
proof (intro conjI impI)
  assume "loop init ls = Inr s"
  from balanced_loop [OF _ this] show "length (reuseA s) = length (reuseD s)"
    by (simp add: balanced_def init_def)
next
  assume "loop_delta init_delta ls = Inr sd"
  from balanced_loop_delta [OF _ this] have b: "balanced_delta sd"
    by (simp add: balanced_delta_def init_delta_def)
  then show "length (reuseD sd) = length (reuseA sd)"
    "length (reuseDeltaA sd) = length (reuseA sd)" "length (reuseDeltaD sd) = length (reuseA sd)"
    by (simp_all add: balanced_delta_def)
  from b show "snd (printCache_delta ''action'' (totalA sd) (totalReusedA sd) (sort (reuseA sd))
             (sort (reuseDeltaA sd))) = None"
    by (intro printCache_delta_no_panic) (simp add: balanced_delta_def)
  from b show "snd (printCache_delta ''data'' (totalD sd) (totalReusedD sd) (sort (reuseD sd))
             (sort (reuseDeltaD sd))) = None"
    by (intro printCache_delta_no_panic) (simp add: balanced_delta_def)
  from b show "snd (report_delta sd) = None" by (rule report_delta_no_panic)
qed

theorem sample_sequences_balanced_witness:
  "\<exists>s sd. loop init [''1000 put A D 500'', ''1010 get A'', ''1020 miss A'', ''1030 get B''] = Inr s \<and>
     loop_delta init_delta [''1000 put A D 500'', ''1010 get A'', ''1020 miss A'', ''1030 get B'']
       = Inr sd \<and>
     reuseA s = [10, 20] \<and> reuseD s = [10, 20] \<and>
     reuseA sd = [10, 20] \<and> reuseD sd = [10, 20] \<and>
     reuseDeltaA sd = [10, 10] \<and> reuseDeltaD sd = [10, 10] \<and>
     length (reuseA s) = length (reuseD s) \<and> length (reuseDeltaA sd) = length (reuseA sd) \<and>
     snd (report_delta sd) = None"
proof -
  obtain s where s:
    "loop init [''1000 put A D 500'', ''1010 get A'', ''1020 miss A'', ''1030 get B''] = Inr s"
    "reuseA s = [10, 20]" "reuseD s = [10, 20]"
    by (simp add: eval_scan)
  obtain sd where sd:
    "loop_delta init_delta [''1000 put A D 500'', ''1010 get A'', ''1020 miss A'', ''1030 get B'']
       = Inr sd"
    "reuseA sd = [10, 20]" "reuseD sd = [10, 20]"
    "reuseDeltaA sd = [10, 10]" "reuseDeltaD sd = [10, 10]"
    by (simp add: eval_scan_delta)
  from sample_sequences_balanced
    [of "[''1000 put A D 500'', ''1010 get A'', ''1020 miss A'', ''1030 get B'']" s sd] s(1) sd(1)
  have "length (reuseA s) = length (reuseD s)" "length (reuseDeltaA sd) = length (reuseA sd)"
    "snd (report_delta sd) = None"
    by simp_all
  with s sd show ?thesis by blast
qed

end
